theory Spec2Isabelle
  imports Main
begin

section \<open>Data model of the query types generator\<close>

text \<open>
  The generator of \<^verbatim>\<open>graphql_sdk_gen/generators/query_types.py\<close> works on three kinds
  of trees: the selection sets of the parsed operation, the Python annotations
  (\<^verbatim>\<open>ast.Name\<close>, \<^verbatim>\<open>ast.Subscript\<close>, \<^verbatim>\<open>ast.Tuple\<close>) of the fields, and the statements
  of the module it emits. Every exception the source can raise is a value of \<open>error\<close>.
\<close>

datatype error =
    NotSupported string
  | ParsingError string
  | KeyError string
  | AttributeError string
  | RecursionError

text \<open>
  Modelled from the spec: the enumeration \<^verbatim>\<open>ClassType\<close> of \<^verbatim>\<open>schema_types.py\<close>, which is
  not among the sources; the spec lists the kinds of the Class-Kind Registry.
\<close>

datatype ClassType = OBJECT | INTERFACE | ENUM | UNION | SCALAR | INPUT

datatype OperationType = QUERY | MUTATION | SUBSCRIPTION

text \<open>
  A selection is a \<^verbatim>\<open>FieldNode\<close> (its name and its optional selection set), a
  \<^verbatim>\<open>FragmentSpreadNode\<close> (the name of the fragment) or an \<^verbatim>\<open>InlineFragmentNode\<close> (its
  type condition, which the parser leaves \<^verbatim>\<open>None\<close> when the fragment has no
  \<^verbatim>\<open>on T\<close>, and its selection set).
\<close>

datatype selection =
    FieldNode string "selection list option"
  | FragmentSpreadNode string
  | InlineFragmentNode "string option" "selection list"

text \<open>A resolved field: the name and the selection set of a \<^verbatim>\<open>FieldNode\<close>.\<close>

type_synonym field = "string \<times> selection list option"

text \<open>
  Annotations. \<open>OtherExpr\<close> stands for every \<^verbatim>\<open>ast\<close> expression that is neither a name,
  a subscript nor a tuple.
\<close>

datatype annotation =
    Name string
  | Subscript annotation annotation
  | Tuple "annotation list"
  | OtherExpr string

text \<open>
  A field definition of the Schema Field Registry is an \<^verbatim>\<open>ast.AnnAssign\<close> (target,
  annotation, value, line number) or an \<^verbatim>\<open>ast.Assign\<close>, which has no annotation.
\<close>

datatype field_def =
    AnnAssign string annotation "string option" nat
  | Assign string string

text \<open>
  The statements of the emitted module: imports, class definitions, and expression
  statements that call a method of a named object.
\<close>

datatype import_from = ImportFrom "string list" string nat

datatype class_def = ClassDef string "string list" "field_def list"

datatype stmt =
    ImportStmt import_from
  | ClassStmt class_def
  | MethodCallExpr string string

fun class_name :: "class_def \<Rightarrow> string" where
  "class_name (ClassDef n bases body) = n"

abbreviation dquote :: char where
  "dquote \<equiv> CHR 0x22"

section \<open>The selection resolver\<close>

text \<open>
  \<^verbatim>\<open>_resolve_selection_set\<close>. The set of used fragment names is the only state the
  function touches; it is passed in and returned. A fragment spread is expanded
  through the fragment table, so the recursion is not structural: a chain of spreads
  that never ends makes Python raise \<^verbatim>\<open>RecursionError\<close>, and the first argument
  bounds how many spreads may be open at once. The name of a spread is recorded before
  the table is read.
\<close>

fun resolve_selection_set ::
  "nat \<Rightarrow> (string \<rightharpoonup> selection list) \<Rightarrow> selection list \<Rightarrow> string \<Rightarrow> string set
     \<Rightarrow> error + (field list \<times> string set)" where
  "resolve_selection_set n fd [] root u = Inr ([], u)"
| "resolve_selection_set n fd (FieldNode name ss # rest) root u =
     (case resolve_selection_set n fd rest root u of
        Inl e \<Rightarrow> Inl e
      | Inr (fs, u') \<Rightarrow> Inr ((name, ss) # fs, u'))"
| "resolve_selection_set 0 fd (FragmentSpreadNode name # rest) root u =
     (case fd name of
        None \<Rightarrow> Inl (KeyError name)
      | Some body \<Rightarrow> Inl RecursionError)"
| "resolve_selection_set (Suc n) fd (FragmentSpreadNode name # rest) root u =
     (case fd name of
        None \<Rightarrow> Inl (KeyError name)
      | Some body \<Rightarrow>
          (case resolve_selection_set n fd body root (insert name u) of
             Inl e \<Rightarrow> Inl e
           | Inr (fs1, u1) \<Rightarrow>
               (case resolve_selection_set (Suc n) fd rest root u1 of
                  Inl e \<Rightarrow> Inl e
                | Inr (fs2, u2) \<Rightarrow> Inr (fs1 @ fs2, u2))))"
| "resolve_selection_set n fd (InlineFragmentNode tc ss # rest) root u =
     (case tc of
        None \<Rightarrow> Inl (AttributeError ''name'')
      | Some t \<Rightarrow>
          (if t = root then
             (case resolve_selection_set n fd ss root u of
                Inl e \<Rightarrow> Inl e
              | Inr (fs1, u1) \<Rightarrow>
                  (case resolve_selection_set n fd rest root u1 of
                     Inl e \<Rightarrow> Inl e
                   | Inr (fs2, u2) \<Rightarrow> Inr (fs1 @ fs2, u2)))
           else resolve_selection_set n fd rest root u))"

section \<open>The type expression rewriter\<close>

text \<open>\<^verbatim>\<open>str.replace('"', "")\<close>, \<^verbatim>\<open>str.startswith('"')\<close> and \<^verbatim>\<open>str.endswith('"')\<close>.\<close>

definition strip_quotes :: "string \<Rightarrow> string" where
  "strip_quotes s = filter (\<lambda>c. c \<noteq> dquote) s"

definition is_quoted :: "string \<Rightarrow> bool" where
  "is_quoted s = (s \<noteq> [] \<and> hd s = dquote \<and> last s = dquote)"

fun walk_annotation :: "annotation \<Rightarrow> string list" where
  "walk_annotation (Name ident) = [strip_quotes ident]"
| "walk_annotation (Subscript v (Tuple elts)) = concat (map walk_annotation elts)"
| "walk_annotation (Subscript v s) = walk_annotation s"
| "walk_annotation a = []"

fun add_prefix_to_annotation :: "annotation \<Rightarrow> string \<Rightarrow> error + annotation"
  and add_prefix_to_elts :: "annotation list \<Rightarrow> string \<Rightarrow> error + annotation list" where
  "add_prefix_to_annotation (Name ident) prefix =
     (if is_quoted ident
      then Inr (Name ([dquote] @ prefix @ strip_quotes ident @ [dquote]))
      else Inl (ParsingError ''Invalid annotation type.''))"
| "add_prefix_to_annotation (Subscript v (Tuple elts)) prefix =
     (case add_prefix_to_elts elts prefix of
        Inl e \<Rightarrow> Inl e
      | Inr elts' \<Rightarrow> Inr (Subscript v (Tuple elts')))"
| "add_prefix_to_annotation (Subscript v s) prefix =
     (case add_prefix_to_annotation s prefix of
        Inl e \<Rightarrow> Inl e
      | Inr s' \<Rightarrow> Inr (Subscript v s'))"
| "add_prefix_to_annotation a prefix = Inl (ParsingError ''Invalid annotation type.'')"
| "add_prefix_to_elts [] prefix = Inr []"
| "add_prefix_to_elts (a # as) prefix =
     (case add_prefix_to_annotation a prefix of
        Inl e \<Rightarrow> Inl e
      | Inr a' \<Rightarrow>
          (case add_prefix_to_elts as prefix of
             Inl e \<Rightarrow> Inl e
           | Inr as' \<Rightarrow> Inr (a' # as')))"

section \<open>The generator object\<close>

text \<open>
  The schema exposes, for the query and for the mutation root type (either may be
  absent), the table from field name to \<^verbatim>\<open>GraphQLField\<close>; of a \<^verbatim>\<open>GraphQLField\<close> the
  generator reads only \<^verbatim>\<open>.type\<close>, a value of the type \<open>'t\<close> that is handed to
  \<^verbatim>\<open>parse_field_type\<close>.
\<close>

record 't GraphQLSchema =
  query_type :: "(string \<rightharpoonup> 't) option"
  mutation_type :: "(string \<rightharpoonup> 't) option"

record OperationDefinitionNode =
  operation :: OperationType
  op_name :: "string option"
  selection_set :: "selection list"

text \<open>The attributes of \<^verbatim>\<open>self\<close>. The first seven are never written after \<^verbatim>\<open>__init__\<close>.\<close>

record 't QueryTypesGenerator =
  schema :: "'t GraphQLSchema"
  fields_of :: "string \<rightharpoonup> (string \<rightharpoonup> field_def)"
  class_types :: "string \<rightharpoonup> ClassType"
  query :: OperationDefinitionNode
  enums_module_name :: string
  fragments_definitions :: "string \<rightharpoonup> selection list"
  query_name :: string
  import_stmts :: "import_from list"
  public_names :: "string list"
  class_defs :: "class_def list"
  used_enums :: "string list"
  used_fragments_names :: "string set"

text \<open>
  Modelled from the spec: the constants \<^verbatim>\<open>OPTIONAL\<close> and \<^verbatim>\<open>UNION\<close> of \<^verbatim>\<open>constants.py\<close>, which
  is not among the sources: the names of the optional and union markers that the
  module imports from \<^verbatim>\<open>typing\<close>.
\<close>

definition OPTIONAL :: string where
  "OPTIONAL = ''Optional''"

definition UNION_name :: string where
  "UNION_name = ''Union''"

text \<open>
  Modelled from the spec: \<^verbatim>\<open>generate_class_def\<close> of \<^verbatim>\<open>codegen.py\<close>, which is not among the
  sources: an output type definition with the given name and bases.
\<close>

definition generate_class_def ::
  "string \<Rightarrow> string list \<Rightarrow> field_def list \<Rightarrow> class_def" where
  "generate_class_def n bases body = ClassDef n bases body"

text \<open>
  Modelled from the spec: \<^verbatim>\<open>generate_ann_assign\<close> of \<^verbatim>\<open>codegen.py\<close>, which is not among the
  sources: an output field with a name, a type expression and no default value.
\<close>

definition generate_ann_assign :: "string \<Rightarrow> annotation \<Rightarrow> nat \<Rightarrow> field_def" where
  "generate_ann_assign target ann lineno = AnnAssign target ann None lineno"

text \<open>
  Modelled from the spec: \<^verbatim>\<open>generate_import_from\<close> of \<^verbatim>\<open>codegen.py\<close>, which is not among the
  sources: an import of the listed names from a module.
\<close>

definition generate_import_from :: "string list \<Rightarrow> string \<Rightarrow> nat \<Rightarrow> import_from" where
  "generate_import_from ns from_module level = ImportFrom ns from_module level"

text \<open>
  Modelled from the spec: \<^verbatim>\<open>generate_typename_field_definition\<close> of \<^verbatim>\<open>codegen.py\<close>, which is
  not among the sources: the synthesized definition of the typename meta-field, a
  string-typed field.
\<close>

definition generate_typename_field_definition :: field_def where
  "generate_typename_field_definition = AnnAssign ''__typename'' (Name ''str'') None 0"

text \<open>
  Modelled from the spec: \<^verbatim>\<open>generate_expr\<close> and \<^verbatim>\<open>generate_method_call\<close> of \<^verbatim>\<open>codegen.py\<close>,
  which is not among the sources, as \<^verbatim>\<open>generate\<close> composes them: the forward-reference
  finalization call for an emitted type.
\<close>

definition update_forward_refs_call :: "class_def \<Rightarrow> stmt" where
  "update_forward_refs_call c = MethodCallExpr (class_name c) ''update_forward_refs''"

text \<open>\<^verbatim>\<open>_get_field_type_from_schema\<close>: the root lookup, by the kind of the operation.\<close>

definition get_field_type_from_schema :: "'t QueryTypesGenerator \<Rightarrow> string \<Rightarrow> error + 't" where
  "get_field_type_from_schema self field_name =
     (case (if operation (query self) = QUERY
            then (case query_type (schema self) of None \<Rightarrow> None | Some fs \<Rightarrow> fs field_name)
            else None) of
        Some field_type \<Rightarrow> Inr field_type
      | None \<Rightarrow>
          (case (if operation (query self) = MUTATION
                 then (case mutation_type (schema self) of None \<Rightarrow> None | Some fs \<Rightarrow> fs field_name)
                 else None) of
             Some field_type \<Rightarrow> Inr field_type
           | None \<Rightarrow>
               Inl (ParsingError (''Definition for '' @ field_name @ '' not found in schema.''))))"

text \<open>
  \<^verbatim>\<open>_get_schema_field_definition\<close>: the lookup in the Schema Field Registry; a missing
  type name or field name is Python's \<^verbatim>\<open>KeyError\<close>.
\<close>

definition get_schema_field_definition ::
  "'t QueryTypesGenerator \<Rightarrow> string \<Rightarrow> string \<Rightarrow> error + field_def" where
  "get_schema_field_definition self type_name field_name =
     (if field_name = ''__typename'' then Inr generate_typename_field_definition
      else (case fields_of self type_name of
              None \<Rightarrow> Inl (KeyError type_name)
            | Some fs \<Rightarrow>
                (case fs field_name of
                   None \<Rightarrow> Inl (KeyError field_name)
                 | Some d \<Rightarrow> Inr d)))"

text \<open>\<^verbatim>\<open>_procces_annotation\<close>.\<close>

definition is_object_or_interface :: "'t QueryTypesGenerator \<Rightarrow> string \<Rightarrow> bool" where
  "is_object_or_interface self n =
     (class_types self n = Some OBJECT \<or> class_types self n = Some INTERFACE)"

definition is_enum :: "'t QueryTypesGenerator \<Rightarrow> string \<Rightarrow> bool" where
  "is_enum self n = (class_types self n = Some ENUM)"

definition procces_annotation ::
  "'t QueryTypesGenerator \<Rightarrow> annotation \<Rightarrow> string list
     \<Rightarrow> error + (annotation \<times> 't QueryTypesGenerator)" where
  "procces_annotation self ann field_type_names =
     (if list_ex (is_object_or_interface self) field_type_names
      then (case add_prefix_to_annotation ann (query_name self) of
              Inl e \<Rightarrow> Inl e
            | Inr ann' \<Rightarrow> Inr (ann', self))
      else Inr (ann, self\<lparr>used_enums :=
                  used_enums self @ filter (is_enum self) field_type_names\<rparr>))"

section \<open>The dependency class synthesizer\<close>

text \<open>
  The loop \<^verbatim>\<open>for field_type_name in field_type_names\<close>, which both \<^verbatim>\<open>_parse_query\<close> and
  \<^verbatim>\<open>_generate_dependency_type_class\<close> run for a field with a selection set. \<open>g\<close> is the
  recursive call; a result that is \<^verbatim>\<open>None\<close> extends nothing.
\<close>

fun dependencies_loop ::
  "(string \<Rightarrow> 's \<Rightarrow> error + (class_def list option \<times> 's)) \<Rightarrow> string list \<Rightarrow> 's
     \<Rightarrow> error + (class_def list \<times> 's)" where
  "dependencies_loop g [] self = Inr ([], self)"
| "dependencies_loop g (field_type_name # rest) self =
     (case g field_type_name self of
        Inl e \<Rightarrow> Inl e
      | Inr (dependencies_defs, self1) \<Rightarrow>
          (case dependencies_loop g rest self1 of
             Inl e \<Rightarrow> Inl e
           | Inr (extra_defs, self2) \<Rightarrow>
               Inr ((case dependencies_defs of None \<Rightarrow> [] | Some ds \<Rightarrow> ds) @ extra_defs,
                    self2)))"

definition field_dependencies ::
  "(string \<Rightarrow> selection list \<Rightarrow> 's \<Rightarrow> error + (class_def list option \<times> 's))
     \<Rightarrow> selection list option \<Rightarrow> string list \<Rightarrow> 's \<Rightarrow> error + (class_def list \<times> 's)" where
  "field_dependencies g sel field_type_names self =
     (case sel of
        None \<Rightarrow> Inr ([], self)
      | Some ss \<Rightarrow> dependencies_loop (\<lambda>field_type_name. g field_type_name ss)
                    field_type_names self)"

text \<open>
  The loop over the resolved fields in \<^verbatim>\<open>_generate_dependency_type_class\<close>: it returns
  the body of the class, the dependency classes and the generator.
\<close>

fun dependency_fields_loop ::
  "(string \<Rightarrow> selection list \<Rightarrow> 't QueryTypesGenerator
      \<Rightarrow> error + (class_def list option \<times> 't QueryTypesGenerator))
     \<Rightarrow> string \<Rightarrow> nat \<Rightarrow> field list \<Rightarrow> 't QueryTypesGenerator
     \<Rightarrow> error + (field_def list \<times> class_def list \<times> 't QueryTypesGenerator)" where
  "dependency_fields_loop g type_name lineno [] self = Inr ([], [], self)"
| "dependency_fields_loop g type_name lineno ((field_name, sel) # rest) self =
     (case get_schema_field_definition self type_name field_name of
        Inl e \<Rightarrow> Inl e
      | Inr (Assign tgt v) \<Rightarrow> Inl (AttributeError ''annotation'')
      | Inr (AnnAssign target ann val l) \<Rightarrow>
          (case procces_annotation self ann (walk_annotation ann) of
             Inl e \<Rightarrow> Inl e
           | Inr (ann', self1) \<Rightarrow>
               (case field_dependencies g sel (walk_annotation ann) self1 of
                  Inl e \<Rightarrow> Inl e
                | Inr (deps, self2) \<Rightarrow>
                    (case dependency_fields_loop g type_name (Suc lineno) rest self2 of
                       Inl e \<Rightarrow> Inl e
                     | Inr (body, extra_defs, self3) \<Rightarrow>
                         Inr (AnnAssign target ann' val lineno # body,
                              deps @ extra_defs, self3)))))"

text \<open>
  \<^verbatim>\<open>_generate_dependency_type_class\<close>. Each call either finds its name registered or
  registers a new one; the first argument bounds the depth of the nested calls, as
  Python's stack does.
\<close>

fun generate_dependency_type_class ::
  "nat \<Rightarrow> string \<Rightarrow> selection list \<Rightarrow> 't QueryTypesGenerator
     \<Rightarrow> error + (class_def list option \<times> 't QueryTypesGenerator)" where
  "generate_dependency_type_class 0 type_name sels self =
     (if query_name self @ type_name \<in> set (public_names self) then Inr (None, self)
      else Inl RecursionError)"
| "generate_dependency_type_class (Suc n) type_name sels self =
     (if query_name self @ type_name \<in> set (public_names self) then Inr (None, self)
      else
        (case resolve_selection_set n (fragments_definitions self) sels type_name
                (used_fragments_names self) of
           Inl e \<Rightarrow> Inl e
         | Inr (fs, u) \<Rightarrow>
             (case dependency_fields_loop (generate_dependency_type_class n) type_name 1 fs
                     (self\<lparr>public_names := public_names self @ [query_name self @ type_name],
                            used_fragments_names := u\<rparr>) of
                Inl e \<Rightarrow> Inl e
              | Inr (body, extra_defs, self') \<Rightarrow>
                  Inr (Some (generate_class_def (query_name self @ type_name) [''BaseModel''] body
                             # extra_defs), self'))))"

section \<open>The root of the operation and the module\<close>

text \<open>The loop over the resolved root fields in \<^verbatim>\<open>_parse_query\<close>.\<close>

fun query_fields_loop ::
  "('t \<Rightarrow> error + annotation)
     \<Rightarrow> (string \<Rightarrow> selection list \<Rightarrow> 't QueryTypesGenerator
          \<Rightarrow> error + (class_def list option \<times> 't QueryTypesGenerator))
     \<Rightarrow> nat \<Rightarrow> field list \<Rightarrow> 't QueryTypesGenerator
     \<Rightarrow> error + (field_def list \<times> class_def list \<times> 't QueryTypesGenerator)" where
  "query_fields_loop parse_field_type g lineno [] self = Inr ([], [], self)"
| "query_fields_loop parse_field_type g lineno ((field_name, sel) # rest) self =
     (case get_field_type_from_schema self field_name of
        Inl e \<Rightarrow> Inl e
      | Inr field_type \<Rightarrow>
          (case parse_field_type field_type of
             Inl e \<Rightarrow> Inl e
           | Inr ann \<Rightarrow>
               (case procces_annotation self ann (walk_annotation ann) of
                  Inl e \<Rightarrow> Inl e
                | Inr (ann', self1) \<Rightarrow>
                    (case field_dependencies g sel (walk_annotation ann) self1 of
                       Inl e \<Rightarrow> Inl e
                     | Inr (deps, self2) \<Rightarrow>
                         (case query_fields_loop parse_field_type g (Suc lineno) rest self2 of
                            Inl e \<Rightarrow> Inl e
                          | Inr (body, extra_defs, self3) \<Rightarrow>
                              Inr (generate_ann_assign field_name ann' lineno # body,
                                   deps @ extra_defs, self3))))))"

definition parse_query ::
  "('t \<Rightarrow> error + annotation) \<Rightarrow> nat \<Rightarrow> 't QueryTypesGenerator
     \<Rightarrow> error + 't QueryTypesGenerator" where
  "parse_query parse_field_type n self =
     (case resolve_selection_set n (fragments_definitions self) (selection_set (query self)) ''''
             (used_fragments_names self) of
        Inl e \<Rightarrow> Inl e
      | Inr (fs, u) \<Rightarrow>
          (case query_fields_loop parse_field_type (generate_dependency_type_class n) 1 fs
                  (self\<lparr>public_names := public_names self @ [query_name self],
                         used_fragments_names := u\<rparr>) of
             Inl e \<Rightarrow> Inl e
           | Inr (body, extra_defs, self') \<Rightarrow>
               Inr (self'\<lparr>class_defs := class_defs self'
                      @ [generate_class_def (query_name self) [''BaseModel''] body]
                      @ extra_defs\<rparr>)))"

text \<open>
  \<^verbatim>\<open>__init__\<close>. \<open>initial_generator\<close> is the generator as the attribute assignments of
  \<^verbatim>\<open>__init__\<close> leave it, before \<^verbatim>\<open>_parse_query\<close> is called; the name of the operation is
  known by then. An exception leaves no generator object behind, so \<^verbatim>\<open>generate\<close> cannot
  be called: the result is the error alone.
\<close>

definition initial_generator ::
  "'t GraphQLSchema \<Rightarrow> (string \<rightharpoonup> (string \<rightharpoonup> field_def)) \<Rightarrow> (string \<rightharpoonup> ClassType)
     \<Rightarrow> OperationDefinitionNode \<Rightarrow> string \<Rightarrow> (string \<rightharpoonup> selection list) option
     \<Rightarrow> import_from option \<Rightarrow> string \<Rightarrow> 't QueryTypesGenerator" where
  "initial_generator schema' fields' class_types' query' enums_module_name'
       fragments_definitions' base_model_import qn =
     \<lparr>schema = schema', fields_of = fields', class_types = class_types', query = query',
      enums_module_name = enums_module_name',
      fragments_definitions =
        (case fragments_definitions' of None \<Rightarrow> Map.empty | Some fd \<Rightarrow> fd),
      query_name = qn,
      import_stmts =
        [generate_import_from [OPTIONAL, UNION_name] ''typing'' 0,
         generate_import_from [''Field''] ''pydantic'' 0,
         (case base_model_import of
            None \<Rightarrow> generate_import_from [''BaseModel''] ''pydantic'' 0
          | Some i \<Rightarrow> i)],
      public_names = [], class_defs = [], used_enums = [],
      used_fragments_names = {}\<rparr>"

definition QueryTypesGenerator_init ::
  "('t \<Rightarrow> error + annotation) \<Rightarrow> nat \<Rightarrow> 't GraphQLSchema
     \<Rightarrow> (string \<rightharpoonup> (string \<rightharpoonup> field_def)) \<Rightarrow> (string \<rightharpoonup> ClassType)
     \<Rightarrow> OperationDefinitionNode \<Rightarrow> string \<Rightarrow> (string \<rightharpoonup> selection list) option
     \<Rightarrow> import_from option \<Rightarrow> error + 't QueryTypesGenerator" where
  "QueryTypesGenerator_init parse_field_type n schema' fields' class_types' query'
       enums_module_name' fragments_definitions' base_model_import =
     (case op_name query' of
        None \<Rightarrow> Inl (NotSupported ''Queries without name are not supported.'')
      | Some qn \<Rightarrow>
          parse_query parse_field_type n
            (initial_generator schema' fields' class_types' query' enums_module_name'
               fragments_definitions' base_model_import qn))"

text \<open>\<^verbatim>\<open>generate\<close>: the body of the module, and the generator with its import list.\<close>

definition generate :: "'t QueryTypesGenerator \<Rightarrow> stmt list \<times> 't QueryTypesGenerator" where
  "generate self =
     (let self1 =
            (if used_enums self \<noteq> []
             then self\<lparr>import_stmts := import_stmts self
                    @ [generate_import_from (used_enums self) (enums_module_name self) 1]\<rparr>
             else self)
      in (map ImportStmt (import_stmts self1) @ map ClassStmt (class_defs self1)
            @ map update_forward_refs_call (class_defs self1),
          self1))"

text \<open>
  A whole run, \<^verbatim>\<open>QueryTypesGenerator(...).generate()\<close>: the body of the emitted module,
  or the exception that \<^verbatim>\<open>__init__\<close> raised.
\<close>

definition run_generator ::
  "('t \<Rightarrow> error + annotation) \<Rightarrow> nat \<Rightarrow> 't GraphQLSchema
     \<Rightarrow> (string \<rightharpoonup> (string \<rightharpoonup> field_def)) \<Rightarrow> (string \<rightharpoonup> ClassType)
     \<Rightarrow> OperationDefinitionNode \<Rightarrow> string \<Rightarrow> (string \<rightharpoonup> selection list) option
     \<Rightarrow> import_from option \<Rightarrow> error + stmt list" where
  "run_generator parse_field_type n schema' fields' class_types' query' enums_module_name'
       fragments_definitions' base_model_import =
     (case QueryTypesGenerator_init parse_field_type n schema' fields' class_types' query'
             enums_module_name' fragments_definitions' base_model_import of
        Inl e \<Rightarrow> Inl e
      | Inr self \<Rightarrow> Inr (fst (generate self)))"

text \<open>The class definitions among the statements of a module, in their order.\<close>

fun module_classes :: "stmt list \<Rightarrow> class_def list" where
  "module_classes [] = []"
| "module_classes (ClassStmt c # rest) = c # module_classes rest"
| "module_classes (ImportStmt i # rest) = module_classes rest"
| "module_classes (MethodCallExpr obj m # rest) = module_classes rest"

section \<open>The rewriting of a type expression, as the specification words it\<close>

text \<open>
  The specification describes the rewriting of \<^verbatim>\<open>_add_prefix_to_annotation\<close> as a map over
  the named-type leaves of the expression: the leaves are the names reached through
  the slices of subscripts (a tuple slice has one leaf per element), the wrappers (the
  \<open>value\<close> of each subscript) stay. \<open>rewrite_leaves\<close> is that map, \<open>prefixed_name\<close> is the
  new leaf (the prefix followed by the original name, in forward-reference quotes), and
  \<open>quoted_leaves\<close> holds of the expressions of this shape whose leaves are all written
  in forward-reference quotes.
\<close>

fun quoted_leaves :: "annotation \<Rightarrow> bool" where
  "quoted_leaves (Name ident) = is_quoted ident"
| "quoted_leaves (Subscript v (Tuple elts)) = list_all quoted_leaves elts"
| "quoted_leaves (Subscript v s) = quoted_leaves s"
| "quoted_leaves a = False"

fun rewrite_leaves :: "(string \<Rightarrow> string) \<Rightarrow> annotation \<Rightarrow> annotation" where
  "rewrite_leaves f (Name ident) = Name (f ident)"
| "rewrite_leaves f (Subscript v (Tuple elts)) = Subscript v (Tuple (map (rewrite_leaves f) elts))"
| "rewrite_leaves f (Subscript v s) = Subscript v (rewrite_leaves f s)"
| "rewrite_leaves f a = a"

definition prefixed_name :: "string \<Rightarrow> string \<Rightarrow> string" where
  "prefixed_name prefix ident = [dquote] @ prefix @ strip_quotes ident @ [dquote]"

section \<open>Invariants of a run\<close>

text \<open>
  \<open>same_inputs\<close>: the attributes that the synthesizer never writes. \<open>step_inv\<close> relates
  the generator before and after a stretch of the run that returned the definitions
  \<open>defs\<close>: only the registered names, the used enums and the used fragment names
  change; the names registered in the stretch are the names of the definitions it
  returned, in the same order; registered names stay distinct; the enums recorded are
  classified \<open>ENUM\<close>. \<open>synth_ok\<close> says so of every successful call of a synthesizer, and
  \<open>query_blind\<close> that a synthesizer does not read the stored operation.
\<close>

definition same_inputs :: "'t QueryTypesGenerator \<Rightarrow> 't QueryTypesGenerator \<Rightarrow> bool" where
  "same_inputs self self' =
     (schema self' = schema self \<and> fields_of self' = fields_of self
    \<and> class_types self' = class_types self \<and> query self' = query self
    \<and> enums_module_name self' = enums_module_name self
    \<and> fragments_definitions self' = fragments_definitions self
    \<and> query_name self' = query_name self \<and> import_stmts self' = import_stmts self
    \<and> class_defs self' = class_defs self)"

definition step_inv ::
  "'t QueryTypesGenerator \<Rightarrow> class_def list \<Rightarrow> 't QueryTypesGenerator \<Rightarrow> bool" where
  "step_inv self defs self' =
     (same_inputs self self'
    \<and> public_names self' = public_names self @ map class_name defs
    \<and> (distinct (public_names self) \<longrightarrow> distinct (public_names self'))
    \<and> (\<exists>es. used_enums self' = used_enums self @ es \<and> (\<forall>x\<in>set es. is_enum self x))
    \<and> used_fragments_names self \<subseteq> used_fragments_names self')"

definition synth_ok ::
  "(string \<Rightarrow> selection list \<Rightarrow> 't QueryTypesGenerator
      \<Rightarrow> error + (class_def list option \<times> 't QueryTypesGenerator)) \<Rightarrow> bool" where
  "synth_ok g =
     (\<forall>tn ss self r self'. g tn ss self = Inr (r, self') \<longrightarrow>
        step_inv self (case r of None \<Rightarrow> [] | Some ds \<Rightarrow> ds) self')"

definition query_blind ::
  "OperationDefinitionNode
     \<Rightarrow> (string \<Rightarrow> selection list \<Rightarrow> 't QueryTypesGenerator
          \<Rightarrow> error + (class_def list option \<times> 't QueryTypesGenerator)) \<Rightarrow> bool" where
  "query_blind q' g =
     (\<forall>tn ss s. g tn ss (s\<lparr>query := q'\<rparr>) =
        (case g tn ss s of Inl e \<Rightarrow> Inl e | Inr (r, s') \<Rightarrow> Inr (r, s'\<lparr>query := q'\<rparr>)))"

section \<open>Selection sets that the resolver can resolve\<close>

text \<open>
  \<open>resolvable_within rank fd k sels\<close>: every fragment spread that the resolver meets in
  \<open>sels\<close> (directly or under an inline fragment) names a fragment of the table, of rank
  below \<open>k\<close>, and every inline fragment has a type condition.
  \<open>fragments_well_founded rank fd\<close>: the body of every fragment of the table is
  resolvable within the rank of the fragment, so the spreads of a body lead to
  fragments of lower rank and no chain of spreads comes back to where it started. A
  validated GraphQL document has such a rank, since its fragment spreads form no
  cycle.
\<close>

fun resolvable_within ::
  "(string \<Rightarrow> nat) \<Rightarrow> (string \<rightharpoonup> selection list) \<Rightarrow> nat \<Rightarrow> selection list \<Rightarrow> bool" where
  "resolvable_within rank fd k [] = True"
| "resolvable_within rank fd k (FieldNode name ss # rest) = resolvable_within rank fd k rest"
| "resolvable_within rank fd k (FragmentSpreadNode name # rest) =
     (fd name \<noteq> None \<and> rank name < k \<and> resolvable_within rank fd k rest)"
| "resolvable_within rank fd k (InlineFragmentNode tc ss # rest) =
     (tc \<noteq> None \<and> resolvable_within rank fd k ss \<and> resolvable_within rank fd k rest)"

definition fragments_well_founded ::
  "(string \<Rightarrow> nat) \<Rightarrow> (string \<rightharpoonup> selection list) \<Rightarrow> bool" where
  "fragments_well_founded rank fd =
     (\<forall>name body. fd name = Some body \<longrightarrow> resolvable_within rank fd (rank name) body)"

section \<open>The traversal of the specification\<close>

text \<open>
  The specification (4.2 and 4.3) describes the run as a traversal of the operation.
  The definitions of this section follow its words, on names only: they build no
  output type and raise no exception. A state of the traversal holds the registered
  type names in the order of registration, the enum names recorded so far in the order
  of recording, and the fields of nested selections visited so far, each with the name
  of the type it is a field of. The generator \<open>env\<close> is read for its inputs only
  (schema, registries, fragment table, operation and operation name).
\<close>

type_synonym traversal = "string list \<times> string list \<times> (string \<times> string) list"

text \<open>
  The decision rule of 4.2 for the names extracted from one type expression: if any
  of them is classified \<open>OBJECT\<close> or \<open>INTERFACE\<close> nothing is recorded, otherwise the names
  classified \<open>ENUM\<close> are, in their order.
\<close>

definition spec_recorded_enums :: "'t QueryTypesGenerator \<Rightarrow> string list \<Rightarrow> string list" where
  "spec_recorded_enums env names =
     (if list_ex (is_object_or_interface env) names then [] else filter (is_enum env) names)"

text \<open>The resolved field selections of a selection set (4.1), in their order.\<close>

definition spec_fields ::
  "nat \<Rightarrow> 't QueryTypesGenerator \<Rightarrow> string \<Rightarrow> selection list \<Rightarrow> field list" where
  "spec_fields n env root ss =
     (case resolve_selection_set n (fragments_definitions env) ss root {} of
        Inl e \<Rightarrow> []
      | Inr (fs, u) \<Rightarrow> fs)"

text \<open>
  The names extracted from the type expression of a field before it is rewritten: of
  the field \<open>f\<close> of the type \<open>tn\<close> in the Schema Field Registry, and of the root field \<open>f\<close>
  of the operation.
\<close>

definition nested_names :: "'t QueryTypesGenerator \<Rightarrow> string \<Rightarrow> string \<Rightarrow> string list" where
  "nested_names env tn f =
     (case get_schema_field_definition env tn f of
        Inr (AnnAssign t a v l) \<Rightarrow> walk_annotation a
      | _ \<Rightarrow> [])"

definition root_names ::
  "('t \<Rightarrow> error + annotation) \<Rightarrow> 't QueryTypesGenerator \<Rightarrow> string \<Rightarrow> string list" where
  "root_names pft env f =
     (case get_field_type_from_schema env f of
        Inl e \<Rightarrow> []
      | Inr t \<Rightarrow> (case pft t of Inl e \<Rightarrow> [] | Inr a \<Rightarrow> walk_annotation a))"

text \<open>
  Step 4 of 4.3: if the field selection carries a nested selection set, the dependency
  types are synthesized for every name of its expression, in the order of the names.
\<close>

definition spec_visit_names ::
  "(string \<Rightarrow> selection list \<Rightarrow> traversal \<Rightarrow> traversal) \<Rightarrow> selection list option
     \<Rightarrow> string list \<Rightarrow> traversal \<Rightarrow> traversal" where
  "spec_visit_names h sel names st =
     (case sel of None \<Rightarrow> st | Some ss \<Rightarrow> fold (\<lambda>tn. h tn ss) names st)"

text \<open>
  Steps 3 and 4 of 4.3 for one resolved field of the type \<open>tn\<close>: the field is visited,
  the enum names of its expression are recorded by the rule of 4.2, and then its
  dependency types are synthesized.
\<close>

definition spec_visit_field ::
  "(string \<Rightarrow> selection list \<Rightarrow> traversal \<Rightarrow> traversal) \<Rightarrow> 't QueryTypesGenerator \<Rightarrow> string
     \<Rightarrow> field \<Rightarrow> traversal \<Rightarrow> traversal" where
  "spec_visit_field h env tn =
     (\<lambda>(f, sel) (reg, en, vis).
        spec_visit_names h sel (nested_names env tn f)
          (reg, en @ spec_recorded_enums env (nested_names env tn f), vis @ [(tn, f)]))"

text \<open>
  The synthesizer of 4.3: a candidate name that is registered is skipped; otherwise it
  is registered, and the resolved fields of the selection set are visited in their
  order, each with its dependency types before the next field (depth first). The first
  argument bounds the depth, as in \<open>generate_dependency_type_class\<close>.
\<close>

fun spec_synthesize ::
  "nat \<Rightarrow> 't QueryTypesGenerator \<Rightarrow> string \<Rightarrow> selection list \<Rightarrow> traversal \<Rightarrow> traversal" where
  "spec_synthesize 0 env tn ss st = st"
| "spec_synthesize (Suc n) env tn ss (reg, en, vis) =
     (if query_name env @ tn \<in> set reg then (reg, en, vis)
      else fold (spec_visit_field (spec_synthesize n env) env tn) (spec_fields n env tn ss)
             (reg @ [query_name env @ tn], en, vis))"

text \<open>
  The root of the operation: the root type is registered under the operation name,
  and the resolved root fields are visited in their order.
\<close>

definition spec_visit_root_field ::
  "('t \<Rightarrow> error + annotation) \<Rightarrow> (string \<Rightarrow> selection list \<Rightarrow> traversal \<Rightarrow> traversal)
     \<Rightarrow> 't QueryTypesGenerator \<Rightarrow> field \<Rightarrow> traversal \<Rightarrow> traversal" where
  "spec_visit_root_field pft h env =
     (\<lambda>(f, sel) (reg, en, vis).
        spec_visit_names h sel (root_names pft env f)
          (reg, en @ spec_recorded_enums env (root_names pft env f), vis))"

definition spec_run ::
  "('t \<Rightarrow> error + annotation) \<Rightarrow> nat \<Rightarrow> 't QueryTypesGenerator \<Rightarrow> traversal" where
  "spec_run pft n env =
     fold (spec_visit_root_field pft (spec_synthesize n env) env)
       (spec_fields n env '''' (selection_set (query env)))
       ([query_name env], [], [])"

text \<open>
  What the traversal leaves: the type names in depth-first, field-order sequence, the
  recorded enum names, and the visited fields of nested selections.
\<close>

definition spec_type_names ::
  "('t \<Rightarrow> error + annotation) \<Rightarrow> nat \<Rightarrow> 't QueryTypesGenerator \<Rightarrow> string list" where
  "spec_type_names pft n env = fst (spec_run pft n env)"

definition spec_used_enums ::
  "('t \<Rightarrow> error + annotation) \<Rightarrow> nat \<Rightarrow> 't QueryTypesGenerator \<Rightarrow> string list" where
  "spec_used_enums pft n env = fst (snd (spec_run pft n env))"

definition spec_visited ::
  "('t \<Rightarrow> error + annotation) \<Rightarrow> nat \<Rightarrow> 't QueryTypesGenerator
     \<Rightarrow> (string \<times> string) list" where
  "spec_visited pft n env = snd (snd (spec_run pft n env))"

text \<open>
  The relation between the program and the traversal. \<open>same_env\<close>: a generator has the
  inputs of \<open>env\<close>. \<open>all_defined\<close>: the registry has a definition for every visited field.
  \<open>refines\<close>: a successful call of the synthesizer \<open>g\<close> changes the registered names and
  the used enums as the step \<open>h\<close> of the traversal does, and every field it visits has a
  definition.
\<close>

definition same_env :: "'t QueryTypesGenerator \<Rightarrow> 't QueryTypesGenerator \<Rightarrow> bool" where
  "same_env env s =
     (schema s = schema env \<and> fields_of s = fields_of env \<and> class_types s = class_types env
    \<and> query s = query env \<and> fragments_definitions s = fragments_definitions env
    \<and> query_name s = query_name env)"

definition all_defined :: "'t QueryTypesGenerator \<Rightarrow> (string \<times> string) list \<Rightarrow> bool" where
  "all_defined env vis =
     (\<forall>(tn, f)\<in>set vis. \<exists>d. get_schema_field_definition env tn f = Inr d)"

definition refines ::
  "'t QueryTypesGenerator
     \<Rightarrow> (string \<Rightarrow> selection list \<Rightarrow> 't QueryTypesGenerator
          \<Rightarrow> error + (class_def list option \<times> 't QueryTypesGenerator))
     \<Rightarrow> (string \<Rightarrow> selection list \<Rightarrow> traversal \<Rightarrow> traversal) \<Rightarrow> bool" where
  "refines env g h =
     (\<forall>tn ss s r s' vis. same_env env s \<and> g tn ss s = Inr (r, s') \<longrightarrow>
        (\<exists>vis'. h tn ss (public_names s, used_enums s, vis) =
                  (public_names s', used_enums s', vis')
               \<and> (all_defined env vis \<longrightarrow> all_defined env vis')))"

section \<open>Example inputs\<close>

text \<open>
  A schema with \<^verbatim>\<open>Query.user: User\<close>, \<^verbatim>\<open>Query.color: Color\<close> and
  \<^verbatim>\<open>Query.favourite: Color\<close>, the object types \<^verbatim>\<open>User\<close> (\<^verbatim>\<open>id\<close>, \<^verbatim>\<open>color\<close>,
  \<^verbatim>\<open>friend: User\<close>, \<^verbatim>\<open>address: Address\<close>, \<^verbatim>\<open>employer: Company\<close>), \<^verbatim>\<open>Address\<close> (\<^verbatim>\<open>city\<close>,
  \<^verbatim>\<open>country: Country\<close>), \<^verbatim>\<open>Country\<close> (\<^verbatim>\<open>code\<close>, \<^verbatim>\<open>flag: Color\<close>) and \<^verbatim>\<open>Company\<close>
  (\<^verbatim>\<open>name\<close>), and the enum \<^verbatim>\<open>Color\<close>. In the examples the type of a root field is its
  annotation, and \<^verbatim>\<open>parse_field_type\<close> is \<open>Inr\<close>. Object names are written in
  forward-reference quotes, scalar and enum names are not.
\<close>

definition example_schema :: "annotation GraphQLSchema" where
  "example_schema =
     \<lparr>query_type =
        Some [''user'' \<mapsto> Subscript (Name ''Optional'') (Name ([dquote] @ ''User'' @ [dquote])),
              ''color'' \<mapsto> Name ''Color'',
              ''favourite'' \<mapsto> Subscript (Name ''Optional'') (Name ''Color'')],
      mutation_type = None\<rparr>"

definition example_fields :: "string \<rightharpoonup> (string \<rightharpoonup> field_def)" where
  "example_fields =
     [''User'' \<mapsto>
        [''id'' \<mapsto> AnnAssign ''id'' (Name ''str'') None 0,
         ''color'' \<mapsto> AnnAssign ''color'' (Subscript (Name ''Optional'') (Name ''Color'')) None 0,
         ''friend'' \<mapsto> AnnAssign ''friend''
            (Subscript (Name ''Optional'') (Name ([dquote] @ ''User'' @ [dquote]))) None 0,
         ''address'' \<mapsto> AnnAssign ''address''
            (Subscript (Name ''Optional'') (Name ([dquote] @ ''Address'' @ [dquote]))) None 0,
         ''employer'' \<mapsto> AnnAssign ''employer''
            (Subscript (Name ''Optional'') (Name ([dquote] @ ''Company'' @ [dquote]))) None 0],
      ''Address'' \<mapsto>
        [''city'' \<mapsto> AnnAssign ''city'' (Name ''str'') None 0,
         ''country'' \<mapsto> AnnAssign ''country''
            (Subscript (Name ''Optional'') (Name ([dquote] @ ''Country'' @ [dquote]))) None 0],
      ''Country'' \<mapsto>
        [''code'' \<mapsto> AnnAssign ''code'' (Name ''str'') None 0,
         ''flag'' \<mapsto> AnnAssign ''flag'' (Subscript (Name ''Optional'') (Name ''Color'')) None 0],
      ''Company'' \<mapsto> [''name'' \<mapsto> AnnAssign ''name'' (Name ''str'') None 0]]"

definition example_class_types :: "string \<rightharpoonup> ClassType" where
  "example_class_types =
     [''User'' \<mapsto> OBJECT, ''Address'' \<mapsto> OBJECT, ''Country'' \<mapsto> OBJECT,
      ''Company'' \<mapsto> OBJECT, ''Color'' \<mapsto> ENUM]"

definition example_fragments :: "string \<rightharpoonup> selection list" where
  "example_fragments = [''F'' \<mapsto> [FieldNode ''__typename'' None]]"

text \<open>
  \<^verbatim>\<open>query Q { user { id color ...F friend { id } address { city } } color }\<close> with
  \<^verbatim>\<open>fragment F on User { __typename }\<close>.
\<close>

definition example_query :: OperationDefinitionNode where
  "example_query =
     \<lparr>operation = QUERY, op_name = Some ''Q'',
      selection_set =
        [FieldNode ''user''
           (Some [FieldNode ''id'' None, FieldNode ''color'' None, FragmentSpreadNode ''F'',
                  FieldNode ''friend'' (Some [FieldNode ''id'' None]),
                  FieldNode ''address'' (Some [FieldNode ''city'' None])]),
         FieldNode ''color'' None]\<rparr>"

text \<open>The generator of \<open>example_query\<close> when \<^verbatim>\<open>_parse_query\<close> has registered the root name.\<close>

definition example_self :: "annotation QueryTypesGenerator" where
  "example_self =
     \<lparr>schema = example_schema, fields_of = example_fields, class_types = example_class_types,
      query = example_query, enums_module_name = ''enums'',
      fragments_definitions = example_fragments, query_name = ''Q'',
      import_stmts = [], public_names = [''Q''], class_defs = [], used_enums = [],
      used_fragments_names = {}\<rparr>"

text \<open>\<^verbatim>\<open>query Q { color favourite }\<close>: two fields of the enum type \<^verbatim>\<open>Color\<close>.\<close>

definition enum_query :: OperationDefinitionNode where
  "enum_query =
     \<lparr>operation = QUERY, op_name = Some ''Q'',
      selection_set = [FieldNode ''color'' None, FieldNode ''favourite'' None]\<rparr>"

text \<open>\<^verbatim>\<open>query Q { __typename }\<close>.\<close>

definition typename_query :: OperationDefinitionNode where
  "typename_query =
     \<lparr>operation = QUERY, op_name = Some ''Q'',
      selection_set = [FieldNode ''__typename'' None]\<rparr>"



text \<open>The module that the generator emits for \<open>example_query\<close>.\<close>

definition example_module :: "stmt list" where
  "example_module =
     [ImportStmt (ImportFrom [''Optional'', ''Union''] ''typing'' 0),
      ImportStmt (ImportFrom [''Field''] ''pydantic'' 0),
      ImportStmt (ImportFrom [''BaseModel''] ''pydantic'' 0),
      ImportStmt (ImportFrom [''Color'', ''Color''] ''enums'' 1),
      ClassStmt (ClassDef ''Q'' [''BaseModel'']
        [AnnAssign ''user''
           (Subscript (Name ''Optional'') (Name ([dquote] @ ''QUser'' @ [dquote]))) None 1,
         AnnAssign ''color'' (Name ''Color'') None 2]),
      ClassStmt (ClassDef ''QUser'' [''BaseModel'']
        [AnnAssign ''id'' (Name ''str'') None 1,
         AnnAssign ''color'' (Subscript (Name ''Optional'') (Name ''Color'')) None 2,
         AnnAssign ''__typename'' (Name ''str'') None 3,
         AnnAssign ''friend''
           (Subscript (Name ''Optional'') (Name ([dquote] @ ''QUser'' @ [dquote]))) None 4,
         AnnAssign ''address''
           (Subscript (Name ''Optional'') (Name ([dquote] @ ''QAddress'' @ [dquote]))) None 5]),
      ClassStmt (ClassDef ''QAddress'' [''BaseModel''] [AnnAssign ''city'' (Name ''str'') None 1]),
      MethodCallExpr ''Q'' ''update_forward_refs'',
      MethodCallExpr ''QUser'' ''update_forward_refs'',
      MethodCallExpr ''QAddress'' ''update_forward_refs'']"

text \<open>
  \<^verbatim>\<open>query Q { user { address { city country { code flag } } employer { name } } }\<close>: the
  types of \<^verbatim>\<open>address\<close> and of its field \<^verbatim>\<open>country\<close> come before the type of the later
  field \<^verbatim>\<open>employer\<close>, and the only enum field, \<^verbatim>\<open>flag\<close>, lies three levels below the
  root.
\<close>

definition dfs_query :: OperationDefinitionNode where
  "dfs_query =
     \<lparr>operation = QUERY, op_name = Some ''Q'',
      selection_set =
        [FieldNode ''user''
           (Some [FieldNode ''address''
                    (Some [FieldNode ''city'' None,
                           FieldNode ''country''
                             (Some [FieldNode ''code'' None, FieldNode ''flag'' None])]),
                  FieldNode ''employer'' (Some [FieldNode ''name'' None])])]\<rparr>"

text \<open>The module that the generator emits for \<open>dfs_query\<close>.\<close>

definition dfs_module :: "stmt list" where
  "dfs_module =
     [ImportStmt (ImportFrom [''Optional'', ''Union''] ''typing'' 0),
      ImportStmt (ImportFrom [''Field''] ''pydantic'' 0),
      ImportStmt (ImportFrom [''BaseModel''] ''pydantic'' 0),
      ImportStmt (ImportFrom [''Color''] ''enums'' 1),
      ClassStmt (ClassDef ''Q'' [''BaseModel'']
        [AnnAssign ''user''
           (Subscript (Name ''Optional'') (Name ([dquote] @ ''QUser'' @ [dquote]))) None 1]),
      ClassStmt (ClassDef ''QUser'' [''BaseModel'']
        [AnnAssign ''address''
           (Subscript (Name ''Optional'') (Name ([dquote] @ ''QAddress'' @ [dquote]))) None 1,
         AnnAssign ''employer''
           (Subscript (Name ''Optional'') (Name ([dquote] @ ''QCompany'' @ [dquote]))) None 2]),
      ClassStmt (ClassDef ''QAddress'' [''BaseModel'']
        [AnnAssign ''city'' (Name ''str'') None 1,
         AnnAssign ''country''
           (Subscript (Name ''Optional'') (Name ([dquote] @ ''QCountry'' @ [dquote]))) None 2]),
      ClassStmt (ClassDef ''QCountry'' [''BaseModel'']
        [AnnAssign ''code'' (Name ''str'') None 1,
         AnnAssign ''flag'' (Subscript (Name ''Optional'') (Name ''Color'')) None 2]),
      ClassStmt (ClassDef ''QCompany'' [''BaseModel''] [AnnAssign ''name'' (Name ''str'') None 1]),
      MethodCallExpr ''Q'' ''update_forward_refs'',
      MethodCallExpr ''QUser'' ''update_forward_refs'',
      MethodCallExpr ''QAddress'' ''update_forward_refs'',
      MethodCallExpr ''QCountry'' ''update_forward_refs'',
      MethodCallExpr ''QCompany'' ''update_forward_refs'']"


text \<open>
  \<^verbatim>\<open>fragment F on User { b ...G }\<close> and \<^verbatim>\<open>fragment G on User { c }\<close>, with a rank under
  which the table is well founded: \<^verbatim>\<open>G\<close>, which spreads nothing, has rank 0 and \<^verbatim>\<open>F\<close>,
  which spreads \<^verbatim>\<open>G\<close>, has rank 1.
\<close>

definition nested_fragments :: "string \<rightharpoonup> selection list" where
  "nested_fragments =
     [''F'' \<mapsto> [FieldNode ''b'' None, FragmentSpreadNode ''G''],
      ''G'' \<mapsto> [FieldNode ''c'' None]]"

definition nested_fragments_rank :: "string \<Rightarrow> nat" where
  "nested_fragments_rank name = (if name = ''F'' then 1 else 0)"

section \<open>Properties of the selection resolver\<close>

text \<open>
  Resolving a concatenation is resolving the two parts in turn: the fields are
  concatenated, the set of used fragment names is threaded through, and the first
  exception wins.
\<close>

lemma resolve_append:
  "resolve_selection_set n fd (xs @ ys) root u =
     (case resolve_selection_set n fd xs root u of
        Inl e \<Rightarrow> Inl e
      | Inr (f1, u1) \<Rightarrow>
          (case resolve_selection_set n fd ys root u1 of
             Inl e \<Rightarrow> Inl e
           | Inr (f2, u2) \<Rightarrow> Inr (f1 @ f2, u2)))"
  by (induction n fd xs root u rule: resolve_selection_set.induct)
     (auto split: sum.splits option.splits prod.splits)

lemma resolve_used_mono:
  "resolve_selection_set n fd xs root u = Inr (fs, u') \<Longrightarrow> u \<subseteq> u'"
  by (induction n fd xs root u arbitrary: fs u' rule: resolve_selection_set.induct)
     (fastforce split: sum.splits option.splits prod.splits if_splits)+

text \<open>
  The bound on open spreads is not felt unless it is hit: a result other than
  \<^verbatim>\<open>RecursionError\<close> is the result for every larger bound.
\<close>

lemma resolve_fuel_Suc:
  "resolve_selection_set n fd xs root u \<noteq> Inl RecursionError \<Longrightarrow>
   resolve_selection_set (Suc n) fd xs root u = resolve_selection_set n fd xs root u"
proof (induction n fd xs root u rule: resolve_selection_set.induct)
  case (1 n fd root u)
  then show ?case by simp
next
  case (2 n fd name ss rest root u)
  then show ?case by (auto split: sum.splits prod.splits)
next
  case (3 fd name rest root u)
  then show ?case by (auto split: option.splits)
next
  case (4 n fd name rest root u)
  show ?case
  proof (cases "fd name")
    case None
    then show ?thesis by simp
  next
    case (Some body)
    show ?thesis
    proof (cases "resolve_selection_set n fd body root (insert name u)")
      case (Inl e)
      with 4(3) Some have "e \<noteq> RecursionError" by auto
      with 4(1)[OF Some] Inl Some show ?thesis by simp
    next
      case (Inr p)
      obtain fs1 u1 where p: "p = (fs1, u1)" by (cases p)
      from 4(1)[OF Some] Inr
      have b: "resolve_selection_set (Suc n) fd body root (insert name u) = Inr (fs1, u1)"
        by (simp add: p)
      from 4(3) Some Inr p
      have "resolve_selection_set (Suc n) fd rest root u1 \<noteq> Inl RecursionError"
        by (auto split: sum.splits)
      from 4(2)[OF Some Inr[unfolded p] refl this]
      show ?thesis using Some Inr p b by simp
    qed
  qed
next
  case (5 n fd tc ss rest root u)
  show ?case
  proof (cases tc)
    case None
    then show ?thesis by simp
  next
    case (Some t)
    show ?thesis
    proof (cases "t = root")
      case False
      with 5(3)[OF Some False] 5(4) Some show ?thesis by simp
    next
      case True
      show ?thesis
      proof (cases "resolve_selection_set n fd ss root u")
        case (Inl e)
        with 5(4) Some True have "e \<noteq> RecursionError" by auto
        with 5(1)[OF Some True] Inl Some True show ?thesis by simp
      next
        case (Inr p)
        obtain fs1 u1 where p: "p = (fs1, u1)" by (cases p)
        from 5(1)[OF Some True] Inr
        have b: "resolve_selection_set (Suc n) fd ss root u = Inr (fs1, u1)"
          by (simp add: p)
        from 5(4) Some True Inr p
        have "resolve_selection_set n fd rest root u1 \<noteq> Inl RecursionError"
          by (auto split: sum.splits)
        from 5(2)[OF Some True Inr[unfolded p] refl this]
        show ?thesis using Some True Inr p b by simp
      qed
    qed
  qed
qed

lemma resolve_fuel_mono:
  "resolve_selection_set n fd xs root u \<noteq> Inl RecursionError \<Longrightarrow>
   resolve_selection_set (n + k) fd xs root u = resolve_selection_set n fd xs root u"
  by (induction k) (simp_all add: resolve_fuel_Suc)

text \<open>An inline fragment with a type condition, in the middle of a selection set.\<close>

lemma resolve_inline_fragment_match:
  "resolve_selection_set n fd (pre @ InlineFragmentNode (Some root) ss # post) root u =
     resolve_selection_set n fd (pre @ ss @ post) root u"
  by (simp add: resolve_append split: sum.splits prod.splits)

lemma resolve_inline_fragment_skip:
  "tc \<noteq> root \<Longrightarrow>
   resolve_selection_set n fd (pre @ InlineFragmentNode (Some tc) ss # post) root u =
     resolve_selection_set n fd (pre @ post) root u"
  by (simp add: resolve_append split: sum.splits prod.splits)

text \<open>
  Claim C5. During selection-set resolution against a root type name, an inline fragment
  whose type condition equals the root type name is flattened in place: the result is
  the result for the selection set with the fragment's own selections spliced in where
  the fragment stood. An inline fragment whose type condition differs contributes
  nothing: the result is the result for the selection set without the fragment.
\<close>

theorem inline_fragment_resolution:
  "resolve_selection_set n fd (pre @ InlineFragmentNode (Some tc) ss # post) root u =
     (if tc = root then resolve_selection_set n fd (pre @ ss @ post) root u
      else resolve_selection_set n fd (pre @ post) root u)"
  by (cases "tc = root") (simp_all add: resolve_inline_fragment_match resolve_inline_fragment_skip)

theorem inline_fragment_resolution_witness:
  "resolve_selection_set 0 Map.empty
     ([FieldNode ''a'' None] @ InlineFragmentNode (Some ''User'') [FieldNode ''b'' None]
        # [InlineFragmentNode (Some ''Admin'') [FieldNode ''c'' None], FieldNode ''d'' None])
     ''User'' {} =
   Inr ([(''a'', None), (''b'', None), (''d'', None)], {})"
  using inline_fragment_resolution [of 0 Map.empty "[FieldNode ''a'' None]" "''User''"
      "[FieldNode ''b'' None]"
      "[InlineFragmentNode (Some ''Admin'') [FieldNode ''c'' None], FieldNode ''d'' None]"
      "''User''" "{}"]
  by simp

text \<open>
  The resolver returns a field sequence whenever the fragment table is well founded
  and the ranks of the spreads it meets lie below the bound: the bound is then never
  hit.
\<close>

lemma resolvable_within_mono:
  "resolvable_within rank fd k sels \<Longrightarrow> k \<le> k' \<Longrightarrow> resolvable_within rank fd k' sels"
  by (induction rank fd k sels rule: resolvable_within.induct) auto

lemma resolvable_within_append:
  "resolvable_within rank fd k (xs @ ys) =
     (resolvable_within rank fd k xs \<and> resolvable_within rank fd k ys)"
  by (induction rank fd k xs rule: resolvable_within.induct) auto

lemma resolve_returns:
  "fragments_well_founded rank fd \<Longrightarrow> resolvable_within rank fd k sels \<Longrightarrow>
   \<exists>fs u'. resolve_selection_set k fd sels root u = Inr (fs, u')"
proof (induction k fd sels root u rule: resolve_selection_set.induct)
  case (1 n fd root u)
  show ?case by simp
next
  case (2 n fd name ss rest root u)
  then show ?case by auto
next
  case (3 fd name rest root u)
  then show ?case by simp
next
  case (4 n fd name rest root u)
  note ac = 4(3)
  from 4(4) obtain body where body: "fd name = Some body" and rk: "rank name < Suc n"
    and rest: "resolvable_within rank fd (Suc n) rest"
    by auto
  from ac body have "resolvable_within rank fd (rank name) body"
    by (simp add: fragments_well_founded_def)
  with rk have "resolvable_within rank fd n body"
    by (auto intro: resolvable_within_mono)
  from 4(1)[OF body ac this] obtain fs1 u1 where
    b: "resolve_selection_set n fd body root (insert name u) = Inr (fs1, u1)" by blast
  from 4(2)[OF body b refl ac rest] obtain fs2 u2 where
    "resolve_selection_set (Suc n) fd rest root u1 = Inr (fs2, u2)" by blast
  with body b show ?case by simp
next
  case (5 n fd tc ss rest root u)
  note ac = 5(4)
  from 5(5) obtain t where tc: "tc = Some t" and ss: "resolvable_within rank fd n ss"
    and rest: "resolvable_within rank fd n rest"
    by auto
  show ?case
  proof (cases "t = root")
    case True
    from 5(1)[OF tc True ac ss] obtain fs1 u1 where
      a: "resolve_selection_set n fd ss root u = Inr (fs1, u1)" by blast
    from 5(2)[OF tc True a refl ac rest] obtain fs2 u2 where
      "resolve_selection_set n fd rest root u1 = Inr (fs2, u2)" by blast
    with tc True a show ?thesis by simp
  next
    case False
    from 5(3)[OF tc False ac rest] tc False show ?thesis by simp
  qed
qed

text \<open>Field selections resolve to themselves, in their order, whatever the bound.\<close>

lemma resolve_plain_fields:
  "resolve_selection_set k fd (map (\<lambda>(name, ss). FieldNode name ss) sels) root u =
     Inr (sels, u)"
  by (induction sels) auto

text \<open>A result of the resolver for a selection set with a fragment spread, taken apart.\<close>

lemma resolve_spread_decomposition:
  assumes "resolve_selection_set n fd (pre @ FragmentSpreadNode f # post) root u = Inr (fs, u')"
  shows "\<exists>m body fs1 u1 fs2 u2 fs3.
           n = Suc m \<and> fd f = Some body
         \<and> resolve_selection_set n fd pre root u = Inr (fs1, u1)
         \<and> resolve_selection_set m fd body root (insert f u1) = Inr (fs2, u2)
         \<and> resolve_selection_set n fd post root u2 = Inr (fs3, u')
         \<and> fs = fs1 @ fs2 @ fs3 \<and> f \<in> u'"
proof -
  from assms obtain fs1 u1 r where
    pre: "resolve_selection_set n fd pre root u = Inr (fs1, u1)" and
    rest: "resolve_selection_set n fd (FragmentSpreadNode f # post) root u1 = Inr (r, u')" and
    fs: "fs = fs1 @ r"
    by (auto simp: resolve_append split: sum.splits prod.splits)
  from rest obtain m where n: "n = Suc m"
    by (cases n) (auto split: option.splits)
  from rest n obtain body fs2 u2 fs3 where
    body: "fd f = Some body" and
    frag: "resolve_selection_set m fd body root (insert f u1) = Inr (fs2, u2)" and
    post: "resolve_selection_set n fd post root u2 = Inr (fs3, u')" and
    r: "r = fs2 @ fs3"
    by (auto split: option.splits sum.splits prod.splits)
  from resolve_used_mono[OF frag] resolve_used_mono[OF post] have "f \<in> u'" by auto
  with n body pre frag post fs r show ?thesis by auto
qed

text \<open>
  Claim C6. A selection set that contains a fragment spread resolves, and the fields
  reached through the spread stand where the spread stood. If the fragment table is
  well founded (the spreads of every fragment body lead to fragments of lower rank) and
  every spread that the resolver meets in the selection set names a fragment of the
  table whose rank lies below the bound \<open>k\<close>, then the resolution with bound \<open>k\<close> returns,
  for every \<open>k\<close>: its field sequence is the fields of the selections before the spread,
  then the fields of the fragment's own selection set (resolved against the same root
  type, with the same bound), then the fields of the selections after the spread, and
  the fragment's name is in the set of used fragment names. Conversely, whenever a
  resolution of such a selection set returns, with any bound and any table, the bound
  is positive, the spread's name is in the table, and the result splits in the same
  way, the fragment's selection set being resolved with the bound lowered by one. The
  parts are anchored by the field selections: a selection set of field selections only
  resolves to these fields, in their order, with any bound.
\<close>

theorem fragment_spread_resolution:
  "(fragments_well_founded rank fd
    \<and> resolvable_within rank fd k (pre @ FragmentSpreadNode f # post) \<longrightarrow>
      (\<exists>body fs1 u1 fs2 u2 fs3 u3.
           fd f = Some body
         \<and> resolve_selection_set k fd pre root u = Inr (fs1, u1)
         \<and> resolve_selection_set k fd body root (insert f u1) = Inr (fs2, u2)
         \<and> resolve_selection_set k fd post root u2 = Inr (fs3, u3)
         \<and> resolve_selection_set k fd (pre @ FragmentSpreadNode f # post) root u =
             Inr (fs1 @ fs2 @ fs3, u3)
         \<and> f \<in> u3))
 \<and> (resolve_selection_set n fd (pre @ FragmentSpreadNode f # post) root u = Inr (fs, u') \<longrightarrow>
      (\<exists>m body fs1 u1 fs2 u2 fs3.
           n = Suc m \<and> fd f = Some body
         \<and> resolve_selection_set n fd pre root u = Inr (fs1, u1)
         \<and> resolve_selection_set m fd body root (insert f u1) = Inr (fs2, u2)
         \<and> resolve_selection_set n fd post root u2 = Inr (fs3, u')
         \<and> fs = fs1 @ fs2 @ fs3 \<and> f \<in> u'))
 \<and> resolve_selection_set j fd (map (\<lambda>(name, ss). FieldNode name ss) sels) root w =
     Inr (sels, w)"
proof (intro conjI impI)
  assume a: "fragments_well_founded rank fd
    \<and> resolvable_within rank fd k (pre @ FragmentSpreadNode f # post)"
  then obtain fs u' where
    r: "resolve_selection_set k fd (pre @ FragmentSpreadNode f # post) root u = Inr (fs, u')"
    using resolve_returns by blast
  from resolve_spread_decomposition[OF r] obtain m body fs1 u1 fs2 u2 fs3 where
    k: "k = Suc m" and body: "fd f = Some body" and
    pre: "resolve_selection_set k fd pre root u = Inr (fs1, u1)" and
    frag: "resolve_selection_set m fd body root (insert f u1) = Inr (fs2, u2)" and
    post: "resolve_selection_set k fd post root u2 = Inr (fs3, u')" and
    fs: "fs = fs1 @ fs2 @ fs3" and f: "f \<in> u'"
    by blast
  from frag have "resolve_selection_set (Suc m) fd body root (insert f u1) = Inr (fs2, u2)"
    by (simp add: resolve_fuel_Suc)
  with k body pre post fs f r
  show "\<exists>body fs1 u1 fs2 u2 fs3 u3.
           fd f = Some body
         \<and> resolve_selection_set k fd pre root u = Inr (fs1, u1)
         \<and> resolve_selection_set k fd body root (insert f u1) = Inr (fs2, u2)
         \<and> resolve_selection_set k fd post root u2 = Inr (fs3, u3)
         \<and> resolve_selection_set k fd (pre @ FragmentSpreadNode f # post) root u =
             Inr (fs1 @ fs2 @ fs3, u3)
         \<and> f \<in> u3"
    by auto
next
  assume "resolve_selection_set n fd (pre @ FragmentSpreadNode f # post) root u = Inr (fs, u')"
  then show "\<exists>m body fs1 u1 fs2 u2 fs3.
           n = Suc m \<and> fd f = Some body
         \<and> resolve_selection_set n fd pre root u = Inr (fs1, u1)
         \<and> resolve_selection_set m fd body root (insert f u1) = Inr (fs2, u2)
         \<and> resolve_selection_set n fd post root u2 = Inr (fs3, u')
         \<and> fs = fs1 @ fs2 @ fs3 \<and> f \<in> u'"
    by (rule resolve_spread_decomposition)
next
  show "resolve_selection_set j fd (map (\<lambda>(name, ss). FieldNode name ss) sels) root w =
     Inr (sels, w)"
    by (rule resolve_plain_fields)
qed

theorem fragment_spread_resolution_witness:
  "fragments_well_founded nested_fragments_rank nested_fragments
 \<and> resolvable_within nested_fragments_rank nested_fragments 5
     ([FieldNode ''a'' None] @ FragmentSpreadNode ''F'' # [FieldNode ''d'' None])
 \<and> nested_fragments ''F'' = Some [FieldNode ''b'' None, FragmentSpreadNode ''G'']
 \<and> resolve_selection_set 5 nested_fragments [FieldNode ''a'' None] ''User'' {} =
     Inr ([(''a'', None)], {})
 \<and> resolve_selection_set 5 nested_fragments [FieldNode ''b'' None, FragmentSpreadNode ''G'']
       ''User'' {''F''} = Inr ([(''b'', None), (''c'', None)], {''F'', ''G''})
 \<and> resolve_selection_set 4 nested_fragments [FieldNode ''b'' None, FragmentSpreadNode ''G'']
       ''User'' {''F''} = Inr ([(''b'', None), (''c'', None)], {''F'', ''G''})
 \<and> resolve_selection_set 5 nested_fragments [FieldNode ''d'' None] ''User'' {''F'', ''G''} =
     Inr ([(''d'', None)], {''F'', ''G''})
 \<and> resolve_selection_set 5 nested_fragments
       ([FieldNode ''a'' None] @ FragmentSpreadNode ''F'' # [FieldNode ''d'' None]) ''User'' {} =
     Inr ([(''a'', None)] @ [(''b'', None), (''c'', None)] @ [(''d'', None)], {''F'', ''G''})
 \<and> ''F'' \<in> {''F'', ''G''}"
proof -
  have wf: "fragments_well_founded nested_fragments_rank nested_fragments"
    by (auto simp: fragments_well_founded_def nested_fragments_def nested_fragments_rank_def
          split: if_splits)
  have rs: "resolvable_within nested_fragments_rank nested_fragments 5
     ([FieldNode ''a'' None] @ FragmentSpreadNode ''F'' # [FieldNode ''d'' None])"
    by (simp add: nested_fragments_def nested_fragments_rank_def)
  have run: "resolve_selection_set 5 nested_fragments
       ([FieldNode ''a'' None] @ FragmentSpreadNode ''F'' # [FieldNode ''d'' None]) ''User'' {} =
     Inr ([(''a'', None), (''b'', None), (''c'', None), (''d'', None)], {''F'', ''G''})"
    by (auto simp: nested_fragments_def numeral_nat)
  from fragment_spread_resolution [where rank = nested_fragments_rank and fd = nested_fragments
      and k = 5 and pre = "[FieldNode ''a'' None]" and f = "''F''"
      and post = "[FieldNode ''d'' None]" and root = "''User''" and u = "{}" and n = 5
      and fs = "[(''a'', None), (''b'', None), (''c'', None), (''d'', None)]"
      and u' = "{''F'', ''G''}" and j = 5 and sels = "[(''a'', None)]" and w = "{}"]
    wf rs run
  show ?thesis
    by (auto simp: nested_fragments_def numeral_nat)
qed

section \<open>Unnamed operations\<close>

text \<open>
  Claim C7. For every operation without a name, \<^verbatim>\<open>__init__\<close> raises \<^verbatim>\<open>NotSupported\<close>,
  the generator's configuration error. The exception is raised before \<^verbatim>\<open>_parse_query\<close>
  runs, so no generator object and no type definition exists, and a whole run yields
  the exception and no module.
\<close>

theorem unnamed_operation_not_supported:
  assumes "op_name q = None"
  shows "QueryTypesGenerator_init parse_field_type n sch fs ct q em fd bmi =
           Inl (NotSupported ''Queries without name are not supported.'')
       \<and> run_generator parse_field_type n sch fs ct q em fd bmi =
           Inl (NotSupported ''Queries without name are not supported.'')"
  using assms by (simp add: QueryTypesGenerator_init_def run_generator_def)

theorem unnamed_operation_not_supported_witness:
  "op_name \<lparr>operation = QUERY, op_name = None, selection_set = [FieldNode ''user'' None]\<rparr> = None
   \<and> run_generator Inr 3 \<lparr>query_type = Some [''user'' \<mapsto> Name ''str''], mutation_type = None\<rparr>
       Map.empty Map.empty
       \<lparr>operation = QUERY, op_name = None, selection_set = [FieldNode ''user'' None]\<rparr>
       ''enums'' None None =
     Inl (NotSupported ''Queries without name are not supported.'')"
  using unnamed_operation_not_supported [of
      "\<lparr>operation = QUERY, op_name = None, selection_set = [FieldNode ''user'' None]\<rparr>"
      Inr 3 "\<lparr>query_type = Some [''user'' \<mapsto> Name ''str''], mutation_type = None\<rparr>"
      Map.empty Map.empty "''enums''" None None]
  by simp

section \<open>Properties of the type expression rewriter\<close>

text \<open>The definitions that evaluate a run on a concrete input.\<close>

lemmas generator_defs = QueryTypesGenerator_init_def initial_generator_def parse_query_def
  get_field_type_from_schema_def get_schema_field_definition_def procces_annotation_def
  field_dependencies_def is_object_or_interface_def is_enum_def strip_quotes_def is_quoted_def
  generate_class_def_def generate_ann_assign_def generate_import_from_def
  generate_typename_field_definition_def OPTIONAL_def UNION_name_def

text \<open>
  \<^verbatim>\<open>_add_prefix_to_annotation\<close> succeeds exactly on the expressions whose leaves are all
  quoted, and then it is the map over the leaves; on every other expression it raises
  \<^verbatim>\<open>ParsingError\<close>.
\<close>

lemma add_prefix_characterised:
  "add_prefix_to_annotation a prefix =
     (if quoted_leaves a then Inr (rewrite_leaves (prefixed_name prefix) a)
      else Inl (ParsingError ''Invalid annotation type.''))"
  "add_prefix_to_elts as prefix =
     (if list_all quoted_leaves as then Inr (map (rewrite_leaves (prefixed_name prefix)) as)
      else Inl (ParsingError ''Invalid annotation type.''))"
proof (induction a prefix and as prefix rule: add_prefix_to_annotation_add_prefix_to_elts.induct)
  case (1 ident prefix)
  then show ?case by (simp add: prefixed_name_def)
qed auto

lemma strip_quotes_prefixed:
  assumes "dquote \<notin> set prefix"
  shows "strip_quotes (prefixed_name prefix ident) = prefix @ strip_quotes ident"
proof -
  from assms have "filter (\<lambda>c. c \<noteq> dquote) prefix = prefix"
    by (induction prefix) auto
  then show ?thesis by (simp add: strip_quotes_def prefixed_name_def)
qed

text \<open>A rewritten subscript is a subscript, so an enclosing subscript looks through it.\<close>

lemma walk_rewritten_Subscript:
  "walk_annotation (Subscript v (rewrite_leaves f (Subscript va vb))) =
     walk_annotation (rewrite_leaves f (Subscript va vb))"
  by (cases vb) simp_all

lemma quoted_rewritten_Subscript:
  "quoted_leaves (Subscript v (rewrite_leaves f (Subscript va vb))) =
     quoted_leaves (rewrite_leaves f (Subscript va vb))"
  by (cases vb) simp_all

text \<open>
  The names extracted from the rewritten expression are the names extracted from the
  original one, each with the prefix in front (an operation name contains no quote).
\<close>

lemma walk_rewrite_leaves:
  "quoted_leaves a \<Longrightarrow> dquote \<notin> set prefix \<Longrightarrow>
   walk_annotation (rewrite_leaves (prefixed_name prefix) a) =
     map ((@) prefix) (walk_annotation a)"
proof (induction a rule: walk_annotation.induct)
  case (1 ident)
  then show ?case by (simp add: strip_quotes_prefixed)
next
  case (2 v elts)
  then have "\<forall>e\<in>set elts. walk_annotation (rewrite_leaves (prefixed_name prefix) e) =
     map ((@) prefix) (walk_annotation e)"
    by (auto simp: list_all_iff)
  then show ?case by (simp add: map_concat comp_def cong: map_cong)
qed (simp_all add: walk_rewritten_Subscript)

lemma quoted_rewrite_leaves:
  "quoted_leaves a \<Longrightarrow> quoted_leaves (rewrite_leaves (prefixed_name prefix) a)"
proof (induction a rule: quoted_leaves.induct)
  case (1 ident)
  then show ?case by (simp add: is_quoted_def prefixed_name_def)
next
  case (2 v elts)
  then show ?case by (auto simp: list_all_iff)
qed (simp_all add: quoted_rewritten_Subscript)

text \<open>
  Claim C1, as stated, fails: the type expression \<^verbatim>\<open>Optional[User]\<close>, whose leaf \<^verbatim>\<open>User\<close>
  is classified \<open>OBJECT\<close> and is not written in forward-reference quotes, is not
  rewritten to \<^verbatim>\<open>Optional[QUser]\<close>; \<^verbatim>\<open>_procces_annotation\<close> raises \<^verbatim>\<open>ParsingError\<close>.
\<close>

theorem unquoted_object_name_counterexample:
  "list_ex (is_object_or_interface example_self)
     (walk_annotation (Subscript (Name ''Optional'') (Name ''User'')))
 \<and> procces_annotation example_self (Subscript (Name ''Optional'') (Name ''User''))
       (walk_annotation (Subscript (Name ''Optional'') (Name ''User''))) =
     Inl (ParsingError ''Invalid annotation type.'')"
  by (simp add: procces_annotation_def is_object_or_interface_def strip_quotes_def is_quoted_def
        example_self_def example_class_types_def)

text \<open>
  Claim C1, amended. For every field whose type expression contains at least one name
  classified \<open>OBJECT\<close> or \<open>INTERFACE\<close>: if every named-type leaf of the expression is
  written in forward-reference quotes, \<^verbatim>\<open>_procces_annotation\<close> returns the expression
  with every leaf replaced by the operation name followed by the original name, again
  in forward-reference quotes, the wrapper structure and the generator unchanged; the
  leaves of the result are quoted, and the names extracted from it are the original
  names with the operation name in front. If some leaf is not quoted, or the expression
  is not built from names, subscripts and tuple slices, \<^verbatim>\<open>_procces_annotation\<close> raises
  \<^verbatim>\<open>ParsingError\<close>.
\<close>

theorem object_annotation_prefixed:
  assumes "list_ex (is_object_or_interface self) (walk_annotation ann)"
  shows "procces_annotation self ann (walk_annotation ann) =
           (if quoted_leaves ann
            then Inr (rewrite_leaves (prefixed_name (query_name self)) ann, self)
            else Inl (ParsingError ''Invalid annotation type.''))
       \<and> (quoted_leaves ann \<longrightarrow>
            quoted_leaves (rewrite_leaves (prefixed_name (query_name self)) ann))
       \<and> (quoted_leaves ann \<and> dquote \<notin> set (query_name self) \<longrightarrow>
            walk_annotation (rewrite_leaves (prefixed_name (query_name self)) ann) =
              map ((@) (query_name self)) (walk_annotation ann))"
  using assms
  by (simp add: procces_annotation_def add_prefix_characterised walk_rewrite_leaves
        quoted_rewrite_leaves)

theorem object_annotation_prefixed_witness:
  "list_ex (is_object_or_interface example_self)
     (walk_annotation (Subscript (Name ''Optional'') (Subscript (Name ''Union'')
        (Tuple [Name ([dquote] @ ''User'' @ [dquote]), Name ([dquote] @ ''Address'' @ [dquote])]))))
 \<and> procces_annotation example_self
       (Subscript (Name ''Optional'') (Subscript (Name ''Union'')
          (Tuple [Name ([dquote] @ ''User'' @ [dquote]), Name ([dquote] @ ''Address'' @ [dquote])])))
       [''User'', ''Address''] =
     Inr (Subscript (Name ''Optional'') (Subscript (Name ''Union'')
            (Tuple [Name ([dquote] @ ''QUser'' @ [dquote]),
                    Name ([dquote] @ ''QAddress'' @ [dquote])])),
          example_self)
 \<and> walk_annotation (Subscript (Name ''Optional'') (Subscript (Name ''Union'')
        (Tuple [Name ([dquote] @ ''QUser'' @ [dquote]), Name ([dquote] @ ''QAddress'' @ [dquote])]))) =
     [''QUser'', ''QAddress'']"
  using object_annotation_prefixed [of example_self
      "Subscript (Name ''Optional'') (Subscript (Name ''Union'')
        (Tuple [Name ([dquote] @ ''User'' @ [dquote]), Name ([dquote] @ ''Address'' @ [dquote])]))"]
  by (simp add: example_self_def example_class_types_def is_object_or_interface_def
        strip_quotes_def is_quoted_def prefixed_name_def)

section \<open>Invariants of the synthesizer\<close>

text \<open>
  The loops of the synthesizer are parametric in the recursive call \<open>g\<close>: each lemma
  about a loop assumes the invariant of \<open>g\<close>, and an induction on the bound on the depth
  of the calls closes the recursion.
\<close>

lemma step_invD:
  assumes "step_inv s d s'"
  shows "same_inputs s s'"
    and "public_names s' = public_names s @ map class_name d"
    and "distinct (public_names s) \<Longrightarrow> distinct (public_names s')"
    and "\<exists>es. used_enums s' = used_enums s @ es \<and> (\<forall>x\<in>set es. is_enum s x)"
    and "used_fragments_names s \<subseteq> used_fragments_names s'"
  using assms unfolding step_inv_def by blast+

lemma step_invI:
  assumes "same_inputs s s'"
    and "public_names s' = public_names s @ map class_name d"
    and "distinct (public_names s) \<Longrightarrow> distinct (public_names s')"
    and "\<exists>es. used_enums s' = used_enums s @ es \<and> (\<forall>x\<in>set es. is_enum s x)"
    and "used_fragments_names s \<subseteq> used_fragments_names s'"
  shows "step_inv s d s'"
  using assms unfolding step_inv_def by blast

lemma step_inv_refl: "step_inv self [] self"
  by (rule step_invI) (simp_all add: same_inputs_def)

lemma step_inv_trans:
  assumes a: "step_inv s d1 s1" and b: "step_inv s1 d2 s2"
  shows "step_inv s (d1 @ d2) s2"
proof (rule step_invI)
  from step_invD(1)[OF a] step_invD(1)[OF b] show "same_inputs s s2"
    by (simp add: same_inputs_def)
  from step_invD(2)[OF a] step_invD(2)[OF b]
  show "public_names s2 = public_names s @ map class_name (d1 @ d2)" by simp
  show "distinct (public_names s2)" if "distinct (public_names s)"
    by (rule step_invD(3)[OF b]) (rule step_invD(3)[OF a that])
  from step_invD(4)[OF a] obtain e1 where
    e1: "used_enums s1 = used_enums s @ e1" "\<forall>x\<in>set e1. is_enum s x" by blast
  from step_invD(4)[OF b] obtain e2 where
    e2: "used_enums s2 = used_enums s1 @ e2" "\<forall>x\<in>set e2. is_enum s1 x" by blast
  from step_invD(1)[OF a] have "\<And>x. is_enum s1 x = is_enum s x"
    by (simp add: is_enum_def same_inputs_def)
  with e1 e2 have "used_enums s2 = used_enums s @ (e1 @ e2) \<and> (\<forall>x\<in>set (e1 @ e2). is_enum s x)"
    by auto
  then show "\<exists>es. used_enums s2 = used_enums s @ es \<and> (\<forall>x\<in>set es. is_enum s x)" by blast
  from step_invD(5)[OF a] step_invD(5)[OF b]
  show "used_fragments_names s \<subseteq> used_fragments_names s2" by blast
qed

lemma procces_annotation_step:
  assumes "procces_annotation self ann ns = Inr (ann', self')"
  shows "step_inv self [] self'"
proof (cases "list_ex (is_object_or_interface self) ns")
  case True
  with assms have "self' = self"
    by (auto simp: procces_annotation_def split: sum.splits)
  then show ?thesis by (simp add: step_inv_refl)
next
  case False
  with assms have s: "self' = self\<lparr>used_enums := used_enums self @ filter (is_enum self) ns\<rparr>"
    by (auto simp: procces_annotation_def)
  show ?thesis unfolding s by (rule step_invI) (auto simp: same_inputs_def)
qed

lemma dependencies_loop_step:
  assumes g: "\<And>tn s r s'. g tn s = Inr (r, s') \<Longrightarrow>
                step_inv s (case r of None \<Rightarrow> [] | Some ds \<Rightarrow> ds) s'"
  shows "dependencies_loop g names self = Inr (ds, self') \<Longrightarrow> step_inv self ds self'"
proof (induction names arbitrary: self ds self')
  case Nil
  then show ?case by (simp add: step_inv_refl)
next
  case (Cons tn rest)
  from Cons.prems obtain r s1 ex where
    a: "g tn self = Inr (r, s1)" and
    b: "dependencies_loop g rest s1 = Inr (ex, self')" and
    c: "ds = (case r of None \<Rightarrow> [] | Some d \<Rightarrow> d) @ ex"
    by (auto split: sum.splits prod.splits)
  from step_inv_trans[OF g[OF a] Cons.IH[OF b]] c show ?case by simp
qed

lemma field_dependencies_step:
  assumes "synth_ok g" and "field_dependencies g sel names self = Inr (ds, self')"
  shows "step_inv self ds self'"
proof (cases sel)
  case None
  with assms(2) show ?thesis by (simp add: field_dependencies_def step_inv_refl)
next
  case (Some ss)
  with assms(2) have l: "dependencies_loop (\<lambda>tn. g tn ss) names self = Inr (ds, self')"
    by (simp add: field_dependencies_def)
  show ?thesis
    by (rule dependencies_loop_step[OF _ l]) (use assms(1) in \<open>auto simp: synth_ok_def\<close>)
qed

lemma dependency_fields_loop_step:
  assumes g: "synth_ok g"
  shows "dependency_fields_loop g type_name lineno fs self = Inr (body, extra, self')
         \<Longrightarrow> step_inv self extra self'"
proof (induction fs arbitrary: lineno self body extra self')
  case Nil
  then show ?case by (simp add: step_inv_refl)
next
  case (Cons f rest)
  obtain field_name sel where f: "f = (field_name, sel)" by (cases f)
  from Cons.prems f obtain target ann val l ann' s1 deps s2 b ex where
    p: "procces_annotation self ann (walk_annotation ann) = Inr (ann', s1)" and
    d: "field_dependencies g sel (walk_annotation ann) s1 = Inr (deps, s2)" and
    r: "dependency_fields_loop g type_name (Suc lineno) rest s2 = Inr (b, ex, self')" and
    e: "extra = deps @ ex"
    by (auto split: sum.splits prod.splits field_def.splits)
  from step_inv_trans[OF procces_annotation_step[OF p]
         step_inv_trans[OF field_dependencies_step[OF g d] Cons.IH[OF r]]] e
  show ?case by simp
qed

lemma query_fields_loop_step:
  assumes g: "synth_ok g"
  shows "query_fields_loop pft g lineno fs self = Inr (body, extra, self')
         \<Longrightarrow> step_inv self extra self'"
proof (induction fs arbitrary: lineno self body extra self')
  case Nil
  then show ?case by (simp add: step_inv_refl)
next
  case (Cons f rest)
  obtain field_name sel where f: "f = (field_name, sel)" by (cases f)
  from Cons.prems f obtain ann ann' s1 deps s2 b ex where
    p: "procces_annotation self ann (walk_annotation ann) = Inr (ann', s1)" and
    d: "field_dependencies g sel (walk_annotation ann) s1 = Inr (deps, s2)" and
    r: "query_fields_loop pft g (Suc lineno) rest s2 = Inr (b, ex, self')" and
    e: "extra = deps @ ex"
    by (auto split: sum.splits prod.splits)
  from step_inv_trans[OF procces_annotation_step[OF p]
         step_inv_trans[OF field_dependencies_step[OF g d] Cons.IH[OF r]]] e
  show ?case by simp
qed

lemma register_step:
  assumes new: "c \<notin> set (public_names self)"
    and u: "used_fragments_names self \<subseteq> u"
    and st: "step_inv (self\<lparr>public_names := public_names self @ [c], used_fragments_names := u\<rparr>)
               extra self'"
  shows "step_inv self (ClassDef c bases body # extra) self'"
proof (rule step_invI)
  from step_invD(1)[OF st] show "same_inputs self self'" by (simp add: same_inputs_def)
  from step_invD(2)[OF st]
  show "public_names self' = public_names self @ map class_name (ClassDef c bases body # extra)"
    by simp
  show "distinct (public_names self')" if "distinct (public_names self)"
    by (rule step_invD(3)[OF st]) (use that new in simp)
  from step_invD(4)[OF st]
  show "\<exists>es. used_enums self' = used_enums self @ es \<and> (\<forall>x\<in>set es. is_enum self x)"
    by (simp add: is_enum_def)
  from step_invD(5)[OF st] u show "used_fragments_names self \<subseteq> used_fragments_names self'"
    by simp
qed

lemma generate_dependency_type_class_ok: "synth_ok (generate_dependency_type_class n)"
proof (induction n)
  case 0
  show ?case
    by (auto simp: synth_ok_def step_inv_refl split: if_splits)
next
  case (Suc n)
  show ?case unfolding synth_ok_def
  proof (intro allI impI)
    fix tn ss and self :: "'a QueryTypesGenerator" and r self'
    assume a: "generate_dependency_type_class (Suc n) tn ss self = Inr (r, self')"
    show "step_inv self (case r of None \<Rightarrow> [] | Some ds \<Rightarrow> ds) self'"
    proof (cases "query_name self @ tn \<in> set (public_names self)")
      case True
      with a show ?thesis by (simp add: step_inv_refl)
    next
      case False
      with a obtain fs u body extra where
        res: "resolve_selection_set n (fragments_definitions self) ss tn
                (used_fragments_names self) = Inr (fs, u)" and
        loop: "dependency_fields_loop (generate_dependency_type_class n) tn 1 fs
                 (self\<lparr>public_names := public_names self @ [query_name self @ tn],
                        used_fragments_names := u\<rparr>) = Inr (body, extra, self')" and
        r: "r = Some (ClassDef (query_name self @ tn) [''BaseModel''] body # extra)"
        by (auto simp: generate_class_def_def split: sum.splits prod.splits)
      from register_step[OF False resolve_used_mono[OF res]
             dependency_fields_loop_step[OF Suc loop]] r
      show ?thesis by simp
    qed
  qed
qed


lemma init_inv:
  assumes "QueryTypesGenerator_init pft n sch fs ct q em fd bmi = Inr g"
  shows "\<exists>qn body deps.
           op_name q = Some qn \<and> query_name g = qn
         \<and> class_defs g = ClassDef qn [''BaseModel''] body # deps
         \<and> public_names g = qn # map class_name deps
         \<and> distinct (public_names g)
         \<and> (\<forall>x\<in>set (used_enums g). ct x = Some ENUM)
         \<and> class_types g = ct \<and> enums_module_name g = em
         \<and> import_stmts g =
             [ImportFrom [''Optional'', ''Union''] ''typing'' 0,
              ImportFrom [''Field''] ''pydantic'' 0,
              (case bmi of None \<Rightarrow> ImportFrom [''BaseModel''] ''pydantic'' 0 | Some i \<Rightarrow> i)]"
proof -
  from assms obtain qn where qn: "op_name q = Some qn"
    by (auto simp: QueryTypesGenerator_init_def split: option.splits)
  define self0 :: "'a QueryTypesGenerator" where
    "self0 = \<lparr>schema = sch, fields_of = fs, class_types = ct, query = q,
             enums_module_name = em,
             fragments_definitions = (case fd of None \<Rightarrow> Map.empty | Some d \<Rightarrow> d),
             query_name = qn,
             import_stmts =
               [generate_import_from [OPTIONAL, UNION_name] ''typing'' 0,
                generate_import_from [''Field''] ''pydantic'' 0,
                (case bmi of
                   None \<Rightarrow> generate_import_from [''BaseModel''] ''pydantic'' 0
                 | Some i \<Rightarrow> i)],
             public_names = [], class_defs = [], used_enums = [],
             used_fragments_names = {}\<rparr>"
  from assms qn have pq: "parse_query pft n self0 = Inr g"
    by (simp add: QueryTypesGenerator_init_def initial_generator_def self0_def)
  then obtain fs' u body extra self' where
    res: "resolve_selection_set n (fragments_definitions self0) (selection_set (query self0)) []
            (used_fragments_names self0) = Inr (fs', u)" and
    loop: "query_fields_loop pft (generate_dependency_type_class n) 1 fs'
             (self0\<lparr>public_names := public_names self0 @ [query_name self0],
                     used_fragments_names := u\<rparr>) = Inr (body, extra, self')" and
    g: "g = self'\<lparr>class_defs := class_defs self'
              @ [generate_class_def (query_name self0) [''BaseModel''] body] @ extra\<rparr>"
    by (auto simp: parse_query_def split: sum.splits prod.splits)
  note st = query_fields_loop_step[OF generate_dependency_type_class_ok loop]
  from step_invD(1)[OF st] have si: "same_inputs self0 self'" by (simp add: same_inputs_def)
  from step_invD(2)[OF st] have pn: "public_names self' = qn # map class_name extra"
    by (simp add: self0_def)
  from step_invD(3)[OF st] have di: "distinct (public_names self')"
    by (simp add: self0_def)
  from step_invD(4)[OF st] have en: "\<forall>x\<in>set (used_enums self'). ct x = Some ENUM"
    by (auto simp: self0_def is_enum_def)
  from si g pn di en show ?thesis
    by (simp add: qn same_inputs_def self0_def generate_class_def_def generate_import_from_def
          OPTIONAL_def UNION_name_def split: option.splits)
qed

text \<open>The run on \<open>example_query\<close>, evaluated.\<close>

lemma example_run:
  "run_generator Inr 3 example_schema example_fields example_class_types example_query
     ''enums'' (Some example_fragments) None = Inr example_module"
  by (simp add: run_generator_def generate_def update_forward_refs_call_def generator_defs
        example_schema_def example_fields_def example_class_types_def example_fragments_def
        example_query_def example_module_def numeral_nat)

section \<open>The run follows the traversal of the specification\<close>

text \<open>
  The lookups read only the inputs, which the synthesizer keeps.
\<close>

lemma same_inputs_root_lookup:
  "same_inputs s s1 \<Longrightarrow> get_field_type_from_schema s1 name = get_field_type_from_schema s name"
  by (simp add: same_inputs_def get_field_type_from_schema_def)


text \<open>
  The fields that the resolver returns do not depend on the set of used fragment names
  it starts from, so the traversal may resolve every selection set from the empty set.
  Every loop of the program that returns has moved the registered names and the used
  enums as the corresponding fold of the traversal does, and has found a definition for
  every field it visited; by induction on the bound so does the synthesizer, and so
  does the whole run.
\<close>

lemma same_env_step: "same_env env s \<Longrightarrow> same_inputs s s' \<Longrightarrow> same_env env s'"
  by (simp add: same_env_def same_inputs_def)

lemma resolve_union:
  "resolve_selection_set n fd xs root (u \<union> w) =
     (case resolve_selection_set n fd xs root u of
        Inl e \<Rightarrow> Inl e
      | Inr (fs, v) \<Rightarrow> Inr (fs, v \<union> w))"
proof (induction n fd xs root u arbitrary: w rule: resolve_selection_set.induct)
  case (1 n fd root u)
  show ?case by simp
next
  case (2 n fd name ss rest root u)
  then show ?case by (auto split: sum.splits prod.splits)
next
  case (3 fd name rest root u)
  show ?case by (simp split: option.splits)
next
  case (4 n fd name rest root u)
  show ?case
  proof (cases "fd name")
    case None
    then show ?thesis by simp
  next
    case (Some body)
    show ?thesis
    proof (cases "resolve_selection_set n fd body root (insert name u)")
      case (Inl e)
      with 4(1)[OF Some, of w] Some show ?thesis by simp
    next
      case (Inr p)
      obtain fs1 u1 where p: "p = (fs1, u1)" by (cases p)
      from 4(1)[OF Some, of w] Inr p
      have b: "resolve_selection_set n fd body root (insert name (u \<union> w)) = Inr (fs1, u1 \<union> w)"
        by simp
      from 4(2)[OF Some Inr[unfolded p] refl, of w] Some Inr p b
      show ?thesis by (simp split: sum.splits prod.splits)
    qed
  qed
next
  case (5 n fd tc ss rest root u)
  show ?case
  proof (cases tc)
    case None
    then show ?thesis by simp
  next
    case (Some t)
    show ?thesis
    proof (cases "t = root")
      case False
      with 5(3)[OF Some False, of w] Some show ?thesis by simp
    next
      case True
      show ?thesis
      proof (cases "resolve_selection_set n fd ss root u")
        case (Inl e)
        with 5(1)[OF Some True, of w] Some True show ?thesis by simp
      next
        case (Inr p)
        obtain fs1 u1 where p: "p = (fs1, u1)" by (cases p)
        from 5(1)[OF Some True, of w] Inr p
        have b: "resolve_selection_set n fd ss root (u \<union> w) = Inr (fs1, u1 \<union> w)"
          by simp
        from 5(2)[OF Some True Inr[unfolded p] refl, of w] Some True Inr p b
        show ?thesis by (simp split: sum.splits prod.splits)
      qed
    qed
  qed
qed

lemma resolve_from_empty:
  "resolve_selection_set n fd xs root u =
     (case resolve_selection_set n fd xs root {} of
        Inl e \<Rightarrow> Inl e
      | Inr (fs, v) \<Rightarrow> Inr (fs, v \<union> u))"
  using resolve_union[of n fd xs root "{}" u] by simp

lemma spec_fields_resolved:
  assumes "resolve_selection_set n (fragments_definitions s) ss root u = Inr (fs, u')"
    and "same_env env s"
  shows "spec_fields n env root ss = fs"
  using assms resolve_from_empty[of n "fragments_definitions s" ss root u]
  by (auto simp: spec_fields_def same_env_def split: sum.splits prod.splits)

lemma all_defined_append:
  "all_defined env (vis @ [(tn, f)]) =
     (all_defined env vis \<and> (\<exists>d. get_schema_field_definition env tn f = Inr d))"
  by (auto simp: all_defined_def)

lemma same_env_registry_lookup:
  "same_env env s \<Longrightarrow>
   get_schema_field_definition s tn f = get_schema_field_definition env tn f"
  by (simp add: same_env_def get_schema_field_definition_def)

lemma same_env_root_lookup:
  "same_env env s \<Longrightarrow> get_field_type_from_schema s f = get_field_type_from_schema env f"
  by (simp add: same_env_def get_field_type_from_schema_def)

lemma procces_annotation_records:
  assumes "procces_annotation s ann ns = Inr (ann', s1)" and "same_env env s"
  shows "public_names s1 = public_names s
       \<and> used_enums s1 = used_enums s @ spec_recorded_enums env ns"
proof (cases "list_ex (is_object_or_interface s) ns")
  case True
  with assms(1) have "s1 = s"
    by (auto simp: procces_annotation_def split: sum.splits)
  moreover from True assms(2) have "spec_recorded_enums env ns = []"
    by (simp add: spec_recorded_enums_def is_object_or_interface_def[abs_def] same_env_def)
  ultimately show ?thesis by simp
next
  case False
  with assms(1) have "s1 = s\<lparr>used_enums := used_enums s @ filter (is_enum s) ns\<rparr>"
    by (auto simp: procces_annotation_def)
  moreover from False assms(2) have "spec_recorded_enums env ns = filter (is_enum s) ns"
    by (simp add: spec_recorded_enums_def is_object_or_interface_def[abs_def]
          is_enum_def[abs_def] same_env_def)
  ultimately show ?thesis by simp
qed

lemma dependencies_loop_refines:
  assumes g: "\<And>tn s r s' vis. same_env env s \<Longrightarrow> g tn s = Inr (r, s') \<Longrightarrow>
                \<exists>vis'. h tn (public_names s, used_enums s, vis) =
                          (public_names s', used_enums s', vis')
                      \<and> (all_defined env vis \<longrightarrow> all_defined env vis')"
    and keep: "\<And>tn s r s'. g tn s = Inr (r, s') \<Longrightarrow> same_inputs s s'"
  shows "same_env env s \<Longrightarrow> dependencies_loop g names s = Inr (ds, s') \<Longrightarrow>
         \<exists>vis'. fold h names (public_names s, used_enums s, vis) =
                   (public_names s', used_enums s', vis')
               \<and> (all_defined env vis \<longrightarrow> all_defined env vis')"
proof (induction names arbitrary: s ds vis)
  case Nil
  then show ?case by simp
next
  case (Cons tn rest)
  from Cons.prems(2) obtain r s1 ex where
    a: "g tn s = Inr (r, s1)" and
    b: "dependencies_loop g rest s1 = Inr (ex, s')"
    by (auto split: sum.splits prod.splits)
  from g[OF Cons.prems(1) a, of vis] obtain vis1 where
    h1: "h tn (public_names s, used_enums s, vis) = (public_names s1, used_enums s1, vis1)" and
    d1: "all_defined env vis \<longrightarrow> all_defined env vis1"
    by blast
  have e1: "same_env env s1"
    by (rule same_env_step[OF Cons.prems(1) keep[OF a]])
  from Cons.IH[OF e1 b, of vis1] obtain vis' where
    "fold h rest (public_names s1, used_enums s1, vis1) =
       (public_names s', used_enums s', vis')"
    "all_defined env vis1 \<longrightarrow> all_defined env vis'"
    by blast
  with h1 d1 show ?case by auto
qed

lemma synth_ok_keeps:
  "synth_ok g \<Longrightarrow> g tn ss s = Inr (r, s') \<Longrightarrow> same_inputs s s'"
  unfolding synth_ok_def by (blast dest: step_invD(1))

lemma field_dependencies_refines:
  assumes rf: "refines env g h" and ok: "synth_ok g"
    and env: "same_env env s"
    and run: "field_dependencies g sel names s = Inr (ds, s')"
  shows "\<exists>vis'. spec_visit_names h sel names (public_names s, used_enums s, vis) =
                   (public_names s', used_enums s', vis')
               \<and> (all_defined env vis \<longrightarrow> all_defined env vis')"
proof (cases sel)
  case None
  with run show ?thesis by (simp add: field_dependencies_def spec_visit_names_def)
next
  case (Some ss)
  with run have l: "dependencies_loop (\<lambda>tn. g tn ss) names s = Inr (ds, s')"
    by (simp add: field_dependencies_def)
  have "\<exists>vis'. fold (\<lambda>tn. h tn ss) names (public_names s, used_enums s, vis) =
                   (public_names s', used_enums s', vis')
               \<and> (all_defined env vis \<longrightarrow> all_defined env vis')"
  proof (rule dependencies_loop_refines[OF _ _ env l])
    fix tn s r s' vis
    assume "same_env env s" "g tn ss s = Inr (r, s')"
    with rf show "\<exists>vis'. h tn ss (public_names s, used_enums s, vis) =
                          (public_names s', used_enums s', vis')
                      \<and> (all_defined env vis \<longrightarrow> all_defined env vis')"
      unfolding refines_def by blast
  next
    fix tn s r s'
    assume "g tn ss s = Inr (r, s')"
    then show "same_inputs s s'" by (rule synth_ok_keeps[OF ok])
  qed
  with Some show ?thesis by (simp add: spec_visit_names_def)
qed

lemma dependency_fields_loop_refines:
  assumes rf: "refines env g h" and ok: "synth_ok g"
  shows "same_env env s \<Longrightarrow> dependency_fields_loop g tn l fs s = Inr (body, extra, s') \<Longrightarrow>
         \<exists>vis'. fold (spec_visit_field h env tn) fs (public_names s, used_enums s, vis) =
                   (public_names s', used_enums s', vis')
               \<and> (all_defined env vis \<longrightarrow> all_defined env vis')"
proof (induction fs arbitrary: l s body extra vis)
  case Nil
  then show ?case by simp
next
  case (Cons fld rest)
  obtain f sel where fld: "fld = (f, sel)" by (cases fld)
  from Cons.prems(2) fld obtain target ann val ln ann' s1 deps s2 b ex where
    lk: "get_schema_field_definition s tn f = Inr (AnnAssign target ann val ln)" and
    p: "procces_annotation s ann (walk_annotation ann) = Inr (ann', s1)" and
    d: "field_dependencies g sel (walk_annotation ann) s1 = Inr (deps, s2)" and
    r: "dependency_fields_loop g tn (Suc l) rest s2 = Inr (b, ex, s')"
    by (auto split: sum.splits prod.splits field_def.splits)
  from lk Cons.prems(1)
  have lk': "get_schema_field_definition env tn f = Inr (AnnAssign target ann val ln)"
    by (simp add: same_env_registry_lookup)
  then have nn: "nested_names env tn f = walk_annotation ann"
    by (simp add: nested_names_def)
  from procces_annotation_records[OF p Cons.prems(1)]
  have rec: "public_names s1 = public_names s"
    "used_enums s1 = used_enums s @ spec_recorded_enums env (walk_annotation ann)"
    by simp_all
  have e1: "same_env env s1"
    by (rule same_env_step[OF Cons.prems(1) step_invD(1)[OF procces_annotation_step[OF p]]])
  from field_dependencies_refines[OF rf ok e1 d, of "vis @ [(tn, f)]"] obtain vis2 where
    v2: "spec_visit_names h sel (walk_annotation ann)
           (public_names s1, used_enums s1, vis @ [(tn, f)]) =
         (public_names s2, used_enums s2, vis2)" and
    d2: "all_defined env (vis @ [(tn, f)]) \<longrightarrow> all_defined env vis2"
    by blast
  have e2: "same_env env s2"
    by (rule same_env_step[OF e1 step_invD(1)[OF field_dependencies_step[OF ok d]]])
  from Cons.IH[OF e2 r, of vis2] obtain vis' where
    v': "fold (spec_visit_field h env tn) rest (public_names s2, used_enums s2, vis2) =
           (public_names s', used_enums s', vis')" and
    d': "all_defined env vis2 \<longrightarrow> all_defined env vis'"
    by blast
  have step: "spec_visit_field h env tn (f, sel) (public_names s, used_enums s, vis) =
                (public_names s2, used_enums s2, vis2)"
    using v2 by (simp add: spec_visit_field_def nn rec)
  from lk' d2 d' have "all_defined env vis \<longrightarrow> all_defined env vis'"
    by (simp add: all_defined_append)
  with step v' show ?case by (auto simp: fld)
qed

lemma generate_dependency_type_class_refines:
  "refines env (generate_dependency_type_class n) (spec_synthesize n env)"
proof (induction n)
  case 0
  show ?case by (auto simp: refines_def split: if_splits)
next
  case (Suc n)
  show ?case unfolding refines_def
  proof (intro allI impI)
    fix tn ss and s :: "'a QueryTypesGenerator" and r s' vis
    assume a: "same_env env s \<and> generate_dependency_type_class (Suc n) tn ss s = Inr (r, s')"
    then have env: "same_env env s" and
      run: "generate_dependency_type_class (Suc n) tn ss s = Inr (r, s')" by simp_all
    from env have qn: "query_name env = query_name s" by (simp add: same_env_def)
    show "\<exists>vis'. spec_synthesize (Suc n) env tn ss (public_names s, used_enums s, vis) =
                   (public_names s', used_enums s', vis')
               \<and> (all_defined env vis \<longrightarrow> all_defined env vis')"
    proof (cases "query_name s @ tn \<in> set (public_names s)")
      case True
      with run qn show ?thesis by simp
    next
      case False
      let ?s1 = "s\<lparr>public_names := public_names s @ [query_name s @ tn],
                    used_fragments_names := u\<rparr>"
      from run False obtain fs u body extra where
        res: "resolve_selection_set n (fragments_definitions s) ss tn
                (used_fragments_names s) = Inr (fs, u)" and
        loop: "dependency_fields_loop (generate_dependency_type_class n) tn 1 fs
                 (s\<lparr>public_names := public_names s @ [query_name s @ tn],
                        used_fragments_names := u\<rparr>) = Inr (body, extra, s')"
        by (auto split: sum.splits prod.splits)
      have e1: "same_env env (s\<lparr>public_names := public_names s @ [query_name s @ tn],
                        used_fragments_names := u\<rparr>)"
        using env by (simp add: same_env_def)
      from dependency_fields_loop_refines[OF Suc generate_dependency_type_class_ok e1 loop,
             of vis]
      obtain vis' where
        v: "fold (spec_visit_field (spec_synthesize n env) env tn) fs
              (public_names s @ [query_name s @ tn], used_enums s, vis) =
            (public_names s', used_enums s', vis')" and
        d: "all_defined env vis \<longrightarrow> all_defined env vis'"
        by auto
      from spec_fields_resolved[OF res env] False qn v d show ?thesis by simp
    qed
  qed
qed

lemma query_fields_loop_refines:
  assumes rf: "refines env g h" and ok: "synth_ok g"
  shows "same_env env s \<Longrightarrow> query_fields_loop pft g l fs s = Inr (body, extra, s') \<Longrightarrow>
         \<exists>vis'. fold (spec_visit_root_field pft h env) fs (public_names s, used_enums s, vis) =
                   (public_names s', used_enums s', vis')
               \<and> (all_defined env vis \<longrightarrow> all_defined env vis')"
proof (induction fs arbitrary: l s body extra vis)
  case Nil
  then show ?case by simp
next
  case (Cons fld rest)
  obtain f sel where fld: "fld = (f, sel)" by (cases fld)
  from Cons.prems(2) fld obtain ft ann ann' s1 deps s2 b ex where
    lk: "get_field_type_from_schema s f = Inr ft" and
    pf: "pft ft = Inr ann" and
    p: "procces_annotation s ann (walk_annotation ann) = Inr (ann', s1)" and
    d: "field_dependencies g sel (walk_annotation ann) s1 = Inr (deps, s2)" and
    r: "query_fields_loop pft g (Suc l) rest s2 = Inr (b, ex, s')"
    by (auto split: sum.splits prod.splits)
  from lk pf Cons.prems(1) have nn: "root_names pft env f = walk_annotation ann"
    by (simp add: root_names_def same_env_root_lookup)
  from procces_annotation_records[OF p Cons.prems(1)]
  have rec: "public_names s1 = public_names s"
    "used_enums s1 = used_enums s @ spec_recorded_enums env (walk_annotation ann)"
    by simp_all
  have e1: "same_env env s1"
    by (rule same_env_step[OF Cons.prems(1) step_invD(1)[OF procces_annotation_step[OF p]]])
  from field_dependencies_refines[OF rf ok e1 d, of vis] obtain vis2 where
    v2: "spec_visit_names h sel (walk_annotation ann) (public_names s1, used_enums s1, vis) =
         (public_names s2, used_enums s2, vis2)" and
    d2: "all_defined env vis \<longrightarrow> all_defined env vis2"
    by blast
  have e2: "same_env env s2"
    by (rule same_env_step[OF e1 step_invD(1)[OF field_dependencies_step[OF ok d]]])
  from Cons.IH[OF e2 r, of vis2] obtain vis' where
    v': "fold (spec_visit_root_field pft h env) rest (public_names s2, used_enums s2, vis2) =
           (public_names s', used_enums s', vis')" and
    d': "all_defined env vis2 \<longrightarrow> all_defined env vis'"
    by blast
  have step: "spec_visit_root_field pft h env (f, sel) (public_names s, used_enums s, vis) =
                (public_names s2, used_enums s2, vis2)"
    using v2 by (simp add: spec_visit_root_field_def nn rec)
  from d2 d' have "all_defined env vis \<longrightarrow> all_defined env vis'" by simp
  with step v' show ?case by (auto simp: fld)
qed

lemma query_fields_loop_defined:
  "query_fields_loop pft g l fs s = Inr (body, extra, s') \<Longrightarrow> synth_ok g \<Longrightarrow>
   \<forall>(f, sel)\<in>set fs. \<exists>t. get_field_type_from_schema s f = Inr t"
proof (induction fs arbitrary: l s body extra)
  case Nil
  show ?case by simp
next
  case (Cons fld rest)
  obtain f sel where fld: "fld = (f, sel)" by (cases fld)
  from Cons.prems(1) fld obtain ft ann ann' s1 deps s2 b ex where
    lk: "get_field_type_from_schema s f = Inr ft" and
    p: "procces_annotation s ann (walk_annotation ann) = Inr (ann', s1)" and
    d: "field_dependencies g sel (walk_annotation ann) s1 = Inr (deps, s2)" and
    r: "query_fields_loop pft g (Suc l) rest s2 = Inr (b, ex, s')"
    by (auto split: sum.splits prod.splits)
  from step_invD(1)[OF procces_annotation_step[OF p]]
       step_invD(1)[OF field_dependencies_step[OF Cons.prems(2) d]]
  have "same_inputs s s2" by (simp add: same_inputs_def)
  with Cons.IH[OF r Cons.prems(2)] lk show ?case
    by (auto simp: fld same_inputs_root_lookup)
qed

lemma parse_query_refines:
  assumes "parse_query pft n s = Inr g" and "public_names s = []" and "used_enums s = []"
  shows "\<exists>vis. spec_run pft n s = (public_names g, used_enums g, vis) \<and> all_defined s vis
       \<and> (\<forall>(f, sel)\<in>set (spec_fields n s [] (selection_set (query s))).
             \<exists>t. get_field_type_from_schema s f = Inr t)"
proof -
  from assms(1) obtain fs u body extra s' where
    res: "resolve_selection_set n (fragments_definitions s) (selection_set (query s)) []
            (used_fragments_names s) = Inr (fs, u)" and
    loop: "query_fields_loop pft (generate_dependency_type_class n) 1 fs
             (s\<lparr>public_names := public_names s @ [query_name s],
                    used_fragments_names := u\<rparr>) = Inr (body, extra, s')" and
    g: "g = s'\<lparr>class_defs := class_defs s'
              @ [generate_class_def (query_name s) [''BaseModel''] body] @ extra\<rparr>"
    by (auto simp: parse_query_def split: sum.splits prod.splits)
  have e0: "same_env s s" by (simp add: same_env_def)
  have e1: "same_env s (s\<lparr>public_names := public_names s @ [query_name s],
                    used_fragments_names := u\<rparr>)"
    by (simp add: same_env_def)
  from query_fields_loop_refines[OF generate_dependency_type_class_refines
         generate_dependency_type_class_ok e1 loop, of "[]"]
  obtain vis where
    v: "fold (spec_visit_root_field pft (spec_synthesize n s) s) fs
          ([query_name s], [], []) = (public_names s', used_enums s', vis)" and
    d: "all_defined s vis"
    using assms(2,3) by (auto simp: all_defined_def)
  from spec_fields_resolved[OF res e0] have sf: "spec_fields n s [] (selection_set (query s)) = fs" .
  from query_fields_loop_defined[OF loop generate_dependency_type_class_ok]
  have "\<forall>(f, sel)\<in>set fs. \<exists>t. get_field_type_from_schema s f = Inr t"
    by (simp only: same_env_root_lookup[OF e1])
  with v d sf g show ?thesis by (simp add: spec_run_def)
qed

lemma run_refines:
  assumes qn: "op_name q = Some qn"
    and g: "QueryTypesGenerator_init pft n sch fs ct q em fd bmi = Inr g"
  shows "public_names g = spec_type_names pft n (initial_generator sch fs ct q em fd bmi qn)"
    and "used_enums g = spec_used_enums pft n (initial_generator sch fs ct q em fd bmi qn)"
    and "all_defined (initial_generator sch fs ct q em fd bmi qn)
           (spec_visited pft n (initial_generator sch fs ct q em fd bmi qn))"
    and "\<forall>(f, sel)\<in>set (spec_fields n (initial_generator sch fs ct q em fd bmi qn) []
                          (selection_set q)).
           \<exists>t. get_field_type_from_schema (initial_generator sch fs ct q em fd bmi qn) f = Inr t"
proof -
  let ?env = "initial_generator sch fs ct q em fd bmi qn"
  from qn g have pq: "parse_query pft n ?env = Inr g"
    by (simp add: QueryTypesGenerator_init_def)
  have "public_names ?env = []" "used_enums ?env = []" "query ?env = q"
    by (simp_all add: initial_generator_def)
  from parse_query_refines[OF pq this(1,2)] this(3) obtain vis where
    "spec_run pft n ?env = (public_names g, used_enums g, vis)" "all_defined ?env vis"
    "\<forall>(f, sel)\<in>set (spec_fields n ?env [] (selection_set q)).
           \<exists>t. get_field_type_from_schema ?env f = Inr t"
    by auto
  then show "public_names g = spec_type_names pft n ?env"
    and "used_enums g = spec_used_enums pft n ?env"
    and "all_defined ?env (spec_visited pft n ?env)"
    and "\<forall>(f, sel)\<in>set (spec_fields n ?env [] (selection_set q)).
           \<exists>t. get_field_type_from_schema ?env f = Inr t"
    by (simp_all add: spec_type_names_def spec_used_enums_def spec_visited_def)
qed

text \<open>The run and the traversal on \<open>dfs_query\<close> and on \<open>missing_nested_query\<close>, evaluated.\<close>

lemmas spec_defs = spec_run_def spec_type_names_def spec_used_enums_def spec_visited_def
  spec_fields_def spec_visit_root_field_def spec_visit_field_def spec_visit_names_def
  spec_recorded_enums_def nested_names_def root_names_def

lemma dfs_run:
  "run_generator Inr 4 example_schema example_fields example_class_types dfs_query
     ''enums'' None None = Inr dfs_module"
  by (simp add: run_generator_def generate_def update_forward_refs_call_def generator_defs
        example_schema_def example_fields_def example_class_types_def dfs_query_def
        dfs_module_def numeral_nat)

lemma dfs_traversal:
  "spec_run Inr 4 (initial_generator example_schema example_fields example_class_types
      dfs_query ''enums'' None None ''Q'') =
   ([''Q'', ''QUser'', ''QAddress'', ''QCountry'', ''QCompany''], [''Color''],
    [(''User'', ''address''), (''Address'', ''city''), (''Address'', ''country''),
     (''Country'', ''code''), (''Country'', ''flag''), (''User'', ''employer''),
     (''Company'', ''name'')])"
  by (simp add: spec_defs generator_defs example_schema_def example_fields_def
        example_class_types_def dfs_query_def numeral_nat)



section \<open>The emitted module\<close>

lemma module_classes_append:
  "module_classes (xs @ ys) = module_classes xs @ module_classes ys"
  by (induction xs rule: module_classes.induct) simp_all

lemma module_classes_imports: "module_classes (map ImportStmt is) = []"
  by (induction "is") simp_all

lemma module_classes_classes: "module_classes (map ClassStmt cs) = cs"
  by (induction cs) simp_all

lemma module_classes_calls: "module_classes (map update_forward_refs_call cs) = []"
  by (induction cs) (simp_all add: update_forward_refs_call_def)

lemma module_classes_generate: "module_classes (fst (generate g)) = class_defs g"
  by (simp add: generate_def Let_def module_classes_append module_classes_imports
        module_classes_classes module_classes_calls)

text \<open>
  Claim C2. Within one generation run no two emitted output type definitions share a
  name: the class definitions of the emitted module have pairwise distinct names. And
  a call of the dependency synthesizer whose candidate name, the operation name
  followed by the type name, is already registered returns \<^verbatim>\<open>None\<close>, that is no
  definition, and leaves the generator as it was, whatever the selection set.
\<close>

theorem output_type_names_unique:
  "(run_generator pft n sch fs ct q em fd bmi = Inr m
      \<longrightarrow> distinct (map class_name (module_classes m)))
 \<and> (query_name self @ type_name \<in> set (public_names self)
      \<longrightarrow> generate_dependency_type_class k type_name ss self = Inr (None, self))"
proof (intro conjI impI)
  assume "run_generator pft n sch fs ct q em fd bmi = Inr m"
  then obtain g where
    g: "QueryTypesGenerator_init pft n sch fs ct q em fd bmi = Inr g" and
    m: "m = fst (generate g)"
    by (auto simp: run_generator_def split: sum.splits)
  from init_inv[OF g] have "distinct (map class_name (class_defs g))" by auto
  then show "distinct (map class_name (module_classes m))"
    by (simp add: m module_classes_generate)
next
  assume "query_name self @ type_name \<in> set (public_names self)"
  then show "generate_dependency_type_class k type_name ss self = Inr (None, self)"
    by (cases k) simp_all
qed

theorem output_type_names_unique_witness:
  "run_generator Inr 3 example_schema example_fields example_class_types example_query
     ''enums'' (Some example_fragments) None = Inr example_module
 \<and> map class_name (module_classes example_module) = [''Q'', ''QUser'', ''QAddress'']
 \<and> distinct (map class_name (module_classes example_module))
 \<and> query_name (example_self\<lparr>public_names := [''Q'', ''QUser'']\<rparr>) @ ''User''
     \<in> set (public_names (example_self\<lparr>public_names := [''Q'', ''QUser'']\<rparr>))
 \<and> generate_dependency_type_class 2 ''User'' [FieldNode ''id'' None]
       (example_self\<lparr>public_names := [''Q'', ''QUser'']\<rparr>) =
     Inr (None, example_self\<lparr>public_names := [''Q'', ''QUser'']\<rparr>)"
proof -
  have reg: "query_name (example_self\<lparr>public_names := [''Q'', ''QUser'']\<rparr>) @ ''User''
     \<in> set (public_names (example_self\<lparr>public_names := [''Q'', ''QUser'']\<rparr>))"
    by (simp add: example_self_def)
  have names: "map class_name (module_classes example_module) = [''Q'', ''QUser'', ''QAddress'']"
    by (simp add: example_module_def)
  from output_type_names_unique [where pft = Inr and n = 3 and sch = example_schema
      and fs = example_fields and ct = example_class_types and q = example_query
      and em = "''enums''" and fd = "Some example_fragments" and bmi = None
      and m = example_module
      and self = "example_self\<lparr>public_names := [''Q'', ''QUser'']\<rparr>"
      and type_name = "''User''" and k = 2 and ss = "[FieldNode ''id'' None]"]
    example_run reg names
  show ?thesis by simp
qed

lemma synthesized_class_first:
  assumes "generate_dependency_type_class k type_name ss self = Inr (Some defs, self')"
  shows "\<exists>body extra. defs = ClassDef (query_name self @ type_name) [''BaseModel''] body # extra"
proof (cases k)
  case 0
  with assms show ?thesis by (simp split: if_splits)
next
  case (Suc n)
  with assms show ?thesis
    by (auto simp: generate_class_def_def split: if_splits sum.splits prod.splits)
qed

lemma synthesized_in_registration_order:
  assumes "generate_dependency_type_class k type_name ss self = Inr (Some defs, self')"
  shows "public_names self' = public_names self @ map class_name defs"
proof -
  from generate_dependency_type_class_ok[of k] assms
  have "step_inv self defs self'"
    unfolding synth_ok_def by fastforce
  then show ?thesis by (rule step_invD(2))
qed

text \<open>
  Claim C9. The emitted module lists, after its imports, the root output type
  definition first (the class named as the operation), then the synthesized dependency
  types, and after all type bodies exactly one call of \<^verbatim>\<open>update_forward_refs\<close> per emitted
  type, in the order of the types. The types stand in depth-first, field-order
  sequence: the names of the classes of the module of a run, read from top to bottom,
  are the type names that the traversal of the specification registers, which goes
  through the resolved fields of a selection in their order and synthesizes the
  dependency types of a field, with all that they depend on, before it goes to the next
  field; so the position of a class follows the position of the field that brought it
  in. In every call of the synthesizer that returns definitions, its own type comes
  first, followed by exactly the types registered during the call, in the order of
  their registration.
\<close>

theorem module_layout:
  "(run_generator pft n sch fs ct q em fd bmi = Inr m \<longrightarrow>
      (\<exists>g body deps.
           QueryTypesGenerator_init pft n sch fs ct q em fd bmi = Inr g
         \<and> op_name q = Some (query_name g)
         \<and> class_defs g = ClassDef (query_name g) [''BaseModel''] body # deps
         \<and> map class_name (class_defs g) = public_names g
         \<and> m = map ImportStmt (import_stmts (snd (generate g)))
               @ map ClassStmt (class_defs g)
               @ map (\<lambda>c. MethodCallExpr (class_name c) ''update_forward_refs'') (class_defs g)))
 \<and> (generate_dependency_type_class k type_name ss self = Inr (Some defs, self') \<longrightarrow>
      (\<exists>body extra. defs = ClassDef (query_name self @ type_name) [''BaseModel''] body # extra)
      \<and> public_names self' = public_names self @ map class_name defs)
 \<and> (op_name q = Some qn \<and> run_generator pft n sch fs ct q em fd bmi = Inr m \<longrightarrow>
      map class_name (module_classes m) =
        spec_type_names pft n (initial_generator sch fs ct q em fd bmi qn))"
proof (intro conjI impI)
  assume "run_generator pft n sch fs ct q em fd bmi = Inr m"
  then obtain g where
    g: "QueryTypesGenerator_init pft n sch fs ct q em fd bmi = Inr g" and
    m: "m = fst (generate g)"
    by (auto simp: run_generator_def split: sum.splits)
  from init_inv[OF g] obtain body deps where
    "op_name q = Some (query_name g)"
    "class_defs g = ClassDef (query_name g) [''BaseModel''] body # deps"
    "map class_name (class_defs g) = public_names g"
    by auto
  moreover have "m = map ImportStmt (import_stmts (snd (generate g)))
               @ map ClassStmt (class_defs g)
               @ map (\<lambda>c. MethodCallExpr (class_name c) ''update_forward_refs'') (class_defs g)"
    by (simp add: m generate_def Let_def update_forward_refs_call_def[abs_def])
  ultimately show "\<exists>g body deps.
           QueryTypesGenerator_init pft n sch fs ct q em fd bmi = Inr g
         \<and> op_name q = Some (query_name g)
         \<and> class_defs g = ClassDef (query_name g) [''BaseModel''] body # deps
         \<and> map class_name (class_defs g) = public_names g
         \<and> m = map ImportStmt (import_stmts (snd (generate g)))
               @ map ClassStmt (class_defs g)
               @ map (\<lambda>c. MethodCallExpr (class_name c) ''update_forward_refs'') (class_defs g)"
    using g by blast
next
  assume a: "generate_dependency_type_class k type_name ss self = Inr (Some defs, self')"
  from synthesized_class_first[OF a]
  show "\<exists>body extra. defs = ClassDef (query_name self @ type_name) [''BaseModel''] body # extra" .
  from synthesized_in_registration_order[OF a]
  show "public_names self' = public_names self @ map class_name defs" .
next
  assume a: "op_name q = Some qn \<and> run_generator pft n sch fs ct q em fd bmi = Inr m"
  then obtain g where
    g: "QueryTypesGenerator_init pft n sch fs ct q em fd bmi = Inr g" and
    m: "m = fst (generate g)"
    by (auto simp: run_generator_def split: sum.splits)
  from a have qn: "op_name q = Some qn" by simp
  from init_inv[OF g] have "map class_name (class_defs g) = public_names g" by auto
  with run_refines(1)[OF qn g]
  show "map class_name (module_classes m) =
        spec_type_names pft n (initial_generator sch fs ct q em fd bmi qn)"
    by (simp add: m module_classes_generate)
qed

theorem module_layout_witness:
  "run_generator Inr 4 example_schema example_fields example_class_types dfs_query
     ''enums'' None None = Inr dfs_module
 \<and> op_name dfs_query = Some ''Q''
 \<and> (\<exists>g body deps.
       QueryTypesGenerator_init Inr 4 example_schema example_fields example_class_types
         dfs_query ''enums'' None None = Inr g
     \<and> op_name dfs_query = Some (query_name g)
     \<and> class_defs g = ClassDef (query_name g) [''BaseModel''] body # deps
     \<and> map class_name (class_defs g) = public_names g
     \<and> dfs_module = map ImportStmt (import_stmts (snd (generate g)))
           @ map ClassStmt (class_defs g)
           @ map (\<lambda>c. MethodCallExpr (class_name c) ''update_forward_refs'') (class_defs g))
 \<and> generate_dependency_type_class 1 ''Address'' [FieldNode ''city'' None] example_self =
     Inr (Some [ClassDef ''QAddress'' [''BaseModel''] [AnnAssign ''city'' (Name ''str'') None 1]],
          example_self\<lparr>public_names := [''Q'', ''QAddress'']\<rparr>)
 \<and> public_names (example_self\<lparr>public_names := [''Q'', ''QAddress'']\<rparr>) =
     public_names example_self
     @ map class_name
         [ClassDef ''QAddress'' [''BaseModel''] [AnnAssign ''city'' (Name ''str'') None 1]]
 \<and> map class_name (module_classes dfs_module) =
     [''Q'', ''QUser'', ''QAddress'', ''QCountry'', ''QCompany'']
 \<and> spec_type_names Inr 4
       (initial_generator example_schema example_fields example_class_types dfs_query
          ''enums'' None None ''Q'') =
     [''Q'', ''QUser'', ''QAddress'', ''QCountry'', ''QCompany'']"
proof -
  have call: "generate_dependency_type_class 1 ''Address'' [FieldNode ''city'' None]
                example_self =
     Inr (Some [ClassDef ''QAddress'' [''BaseModel''] [AnnAssign ''city'' (Name ''str'') None 1]],
          example_self\<lparr>public_names := [''Q'', ''QAddress'']\<rparr>)"
    by (simp add: generator_defs example_self_def example_fields_def example_class_types_def)
  have qn: "op_name dfs_query = Some ''Q''"
    by (simp add: dfs_query_def)
  have tr: "spec_type_names Inr 4
       (initial_generator example_schema example_fields example_class_types dfs_query
          ''enums'' None None ''Q'') =
     [''Q'', ''QUser'', ''QAddress'', ''QCountry'', ''QCompany'']"
    by (simp add: spec_type_names_def dfs_traversal)
  note layout = module_layout [where pft = Inr and n = 4 and sch = example_schema
      and fs = example_fields and ct = example_class_types and q = dfs_query
      and em = "''enums''" and fd = None and bmi = None
      and m = dfs_module and qn = "''Q''" and k = 1 and type_name = "''Address''"
      and ss = "[FieldNode ''city'' None]" and self = example_self
      and defs = "[ClassDef ''QAddress'' [''BaseModel'']
                    [AnnAssign ''city'' (Name ''str'') None 1]]"
      and self' = "example_self\<lparr>public_names := [''Q'', ''QAddress'']\<rparr>"]
  from layout dfs_run
  have c1: "\<exists>g body deps.
       QueryTypesGenerator_init Inr 4 example_schema example_fields example_class_types
         dfs_query ''enums'' None None = Inr g
     \<and> op_name dfs_query = Some (query_name g)
     \<and> class_defs g = ClassDef (query_name g) [''BaseModel''] body # deps
     \<and> map class_name (class_defs g) = public_names g
     \<and> dfs_module = map ImportStmt (import_stmts (snd (generate g)))
           @ map ClassStmt (class_defs g)
           @ map (\<lambda>c. MethodCallExpr (class_name c) ''update_forward_refs'') (class_defs g)"
    by simp
  from layout call
  have c2: "public_names (example_self\<lparr>public_names := [''Q'', ''QAddress'']\<rparr>) =
     public_names example_self
     @ map class_name
         [ClassDef ''QAddress'' [''BaseModel''] [AnnAssign ''city'' (Name ''str'') None 1]]"
    by blast
  from layout qn dfs_run tr
  have c3: "map class_name (module_classes dfs_module) =
     [''Q'', ''QUser'', ''QAddress'', ''QCountry'', ''QCompany'']"
    by simp
  from dfs_run qn c1 call c2 c3 tr
  show ?thesis by blast
qed

text \<open>
  Claim C4, as stated, fails: for \<^verbatim>\<open>query Q { color favourite }\<close>, two fields of the enum
  type \<^verbatim>\<open>Color\<close>, the import of the enum module lists \<^verbatim>\<open>Color\<close> twice, not at most once.
\<close>

theorem repeated_enum_import_counterexample:
  "run_generator Inr 1 example_schema Map.empty example_class_types enum_query ''enums''
     None None =
   Inr [ImportStmt (ImportFrom [''Optional'', ''Union''] ''typing'' 0),
        ImportStmt (ImportFrom [''Field''] ''pydantic'' 0),
        ImportStmt (ImportFrom [''BaseModel''] ''pydantic'' 0),
        ImportStmt (ImportFrom [''Color'', ''Color''] ''enums'' 1),
        ClassStmt (ClassDef ''Q'' [''BaseModel'']
          [AnnAssign ''color'' (Name ''Color'') None 1,
           AnnAssign ''favourite'' (Subscript (Name ''Optional'') (Name ''Color'')) None 2]),
        MethodCallExpr ''Q'' ''update_forward_refs'']"
  by (simp add: run_generator_def generate_def update_forward_refs_call_def generator_defs
        example_schema_def example_class_types_def enum_query_def)

text \<open>
  Claim C4, amended. The module that \<^verbatim>\<open>generate\<close> emits for the generator that
  \<^verbatim>\<open>__init__\<close> returned contains an import of the enum module, after the three fixed
  imports, if and only if at least one name was recorded in \<^verbatim>\<open>used_enums\<close>, and that
  import lists the recorded names in the order of recording, a name once for every
  time it was recorded (not each name at most once). For a field whose type expression
  contains no name classified \<open>OBJECT\<close> or \<open>INTERFACE\<close>, \<^verbatim>\<open>_procces_annotation\<close> leaves the
  expression unmodified and records the names extracted from it that are classified
  \<open>ENUM\<close>; for any other field it records nothing. After \<^verbatim>\<open>__init__\<close> every recorded name
  is classified \<open>ENUM\<close>, and the import list holds the three fixed imports. For a whole
  run that emits a module, the names recorded at the end are exactly those that the
  traversal of the specification records, at the root and at every nested level: for
  every resolved field that it visits, in the order of the visits, the names of the
  field's type expression that are classified \<open>ENUM\<close>, if the expression contains no
  name classified \<open>OBJECT\<close> or \<open>INTERFACE\<close>. The module is the three fixed imports, then
  the import of these names from the enum module if there is at least one, then the
  classes, then the calls of \<^verbatim>\<open>update_forward_refs\<close>.
\<close>

theorem enum_import_lists_recorded_names:
  "fst (generate self) =
     map ImportStmt (import_stmts self)
     @ (if used_enums self = [] then []
        else [ImportStmt (ImportFrom (used_enums self) (enums_module_name self) 1)])
     @ map ClassStmt (class_defs self)
     @ map update_forward_refs_call (class_defs self)
 \<and> (procces_annotation self ann (walk_annotation ann) = Inr (ann', self') \<longrightarrow>
      (if list_ex (is_object_or_interface self) (walk_annotation ann)
       then used_enums self' = used_enums self
       else ann' = ann
          \<and> used_enums self' = used_enums self @ filter (is_enum self) (walk_annotation ann)))
 \<and> (QueryTypesGenerator_init pft n sch fs ct q em fd bmi = Inr g \<longrightarrow>
      (\<forall>x\<in>set (used_enums g). ct x = Some ENUM)
      \<and> import_stmts g =
          [ImportFrom [''Optional'', ''Union''] ''typing'' 0,
           ImportFrom [''Field''] ''pydantic'' 0,
           (case bmi of None \<Rightarrow> ImportFrom [''BaseModel''] ''pydantic'' 0 | Some i \<Rightarrow> i)])
 \<and> (op_name q = Some qn \<and> run_generator pft n sch fs ct q em fd bmi = Inr m \<longrightarrow>
      m = map ImportStmt
            [ImportFrom [''Optional'', ''Union''] ''typing'' 0,
             ImportFrom [''Field''] ''pydantic'' 0,
             (case bmi of None \<Rightarrow> ImportFrom [''BaseModel''] ''pydantic'' 0 | Some i \<Rightarrow> i)]
          @ (if spec_used_enums pft n (initial_generator sch fs ct q em fd bmi qn) = [] then []
             else [ImportStmt
                     (ImportFrom
                        (spec_used_enums pft n (initial_generator sch fs ct q em fd bmi qn))
                        em 1)])
          @ map ClassStmt (module_classes m)
          @ map update_forward_refs_call (module_classes m))"
proof (intro conjI impI)
  show "fst (generate self) =
     map ImportStmt (import_stmts self)
     @ (if used_enums self = [] then []
        else [ImportStmt (ImportFrom (used_enums self) (enums_module_name self) 1)])
     @ map ClassStmt (class_defs self)
     @ map update_forward_refs_call (class_defs self)"
    by (simp add: generate_def generate_import_from_def Let_def)
next
  assume "procces_annotation self ann (walk_annotation ann) = Inr (ann', self')"
  then show "if list_ex (is_object_or_interface self) (walk_annotation ann)
       then used_enums self' = used_enums self
       else ann' = ann
          \<and> used_enums self' = used_enums self @ filter (is_enum self) (walk_annotation ann)"
    by (auto simp: procces_annotation_def split: sum.splits if_splits)
next
  assume a: "QueryTypesGenerator_init pft n sch fs ct q em fd bmi = Inr g"
  from init_inv[OF a] show "\<forall>x\<in>set (used_enums g). ct x = Some ENUM" by blast
  from init_inv[OF a] show "import_stmts g =
          [ImportFrom [''Optional'', ''Union''] ''typing'' 0,
           ImportFrom [''Field''] ''pydantic'' 0,
           (case bmi of None \<Rightarrow> ImportFrom [''BaseModel''] ''pydantic'' 0 | Some i \<Rightarrow> i)]"
    by blast
next
  assume a: "op_name q = Some qn \<and> run_generator pft n sch fs ct q em fd bmi = Inr m"
  then obtain g where
    g: "QueryTypesGenerator_init pft n sch fs ct q em fd bmi = Inr g" and
    m: "m = fst (generate g)"
    by (auto simp: run_generator_def split: sum.splits)
  from a have qn: "op_name q = Some qn" by simp
  from init_inv[OF g] have
    im: "import_stmts g =
          [ImportFrom [''Optional'', ''Union''] ''typing'' 0,
           ImportFrom [''Field''] ''pydantic'' 0,
           (case bmi of None \<Rightarrow> ImportFrom [''BaseModel''] ''pydantic'' 0 | Some i \<Rightarrow> i)]" and
    em: "enums_module_name g = em"
    by auto
  note en = run_refines(2)[OF qn g]
  have cl: "module_classes m = class_defs g"
    by (simp add: m module_classes_generate)
  have "m = map ImportStmt (import_stmts g)
     @ (if used_enums g = [] then []
        else [ImportStmt (ImportFrom (used_enums g) (enums_module_name g) 1)])
     @ map ClassStmt (class_defs g)
     @ map update_forward_refs_call (class_defs g)"
    by (simp add: m generate_def generate_import_from_def Let_def)
  then have "m = map ImportStmt
            [ImportFrom [''Optional'', ''Union''] ''typing'' 0,
             ImportFrom [''Field''] ''pydantic'' 0,
             (case bmi of None \<Rightarrow> ImportFrom [''BaseModel''] ''pydantic'' 0 | Some i \<Rightarrow> i)]
          @ (if spec_used_enums pft n (initial_generator sch fs ct q em fd bmi qn) = [] then []
             else [ImportStmt
                     (ImportFrom
                        (spec_used_enums pft n (initial_generator sch fs ct q em fd bmi qn))
                        em 1)])
          @ map ClassStmt (class_defs g)
          @ map update_forward_refs_call (class_defs g)"
    by (simp only: im em en)
  then show "m = map ImportStmt
            [ImportFrom [''Optional'', ''Union''] ''typing'' 0,
             ImportFrom [''Field''] ''pydantic'' 0,
             (case bmi of None \<Rightarrow> ImportFrom [''BaseModel''] ''pydantic'' 0 | Some i \<Rightarrow> i)]
          @ (if spec_used_enums pft n (initial_generator sch fs ct q em fd bmi qn) = [] then []
             else [ImportStmt
                     (ImportFrom
                        (spec_used_enums pft n (initial_generator sch fs ct q em fd bmi qn))
                        em 1)])
          @ map ClassStmt (module_classes m)
          @ map update_forward_refs_call (module_classes m)"
    unfolding cl .
qed

theorem enum_import_lists_recorded_names_witness:
  "(\<exists>g. QueryTypesGenerator_init Inr 1 example_schema Map.empty example_class_types enum_query
          ''enums'' None None = Inr g
     \<and> used_enums g = [''Color'', ''Color'']
     \<and> example_class_types ''Color'' = Some ENUM
     \<and> procces_annotation example_self (Name ''Color'') (walk_annotation (Name ''Color'')) =
         Inr (Name ''Color'', example_self\<lparr>used_enums := [''Color'']\<rparr>)
     \<and> fst (generate g) =
         map ImportStmt (import_stmts g)
         @ [ImportStmt (ImportFrom [''Color'', ''Color''] ''enums'' 1)]
         @ map ClassStmt (class_defs g) @ map update_forward_refs_call (class_defs g))
 \<and> op_name dfs_query = Some ''Q''
 \<and> run_generator Inr 4 example_schema example_fields example_class_types dfs_query
     ''enums'' None None = Inr dfs_module
 \<and> spec_used_enums Inr 4
       (initial_generator example_schema example_fields example_class_types dfs_query
          ''enums'' None None ''Q'') = [''Color'']
 \<and> dfs_module =
     map ImportStmt
       [ImportFrom [''Optional'', ''Union''] ''typing'' 0,
        ImportFrom [''Field''] ''pydantic'' 0,
        ImportFrom [''BaseModel''] ''pydantic'' 0]
     @ [ImportStmt (ImportFrom [''Color''] ''enums'' 1)]
     @ map ClassStmt (module_classes dfs_module)
     @ map update_forward_refs_call (module_classes dfs_module)"
proof -
  obtain g where g: "QueryTypesGenerator_init Inr 1 example_schema Map.empty example_class_types
      enum_query ''enums'' None None = Inr g" and e: "used_enums g = [''Color'', ''Color'']"
      and m: "enums_module_name g = ''enums''"
    by (simp add: generator_defs example_schema_def example_class_types_def enum_query_def)
  have p: "procces_annotation example_self (Name ''Color'') (walk_annotation (Name ''Color'')) =
         Inr (Name ''Color'', example_self\<lparr>used_enums := [''Color'']\<rparr>)"
    by (simp add: procces_annotation_def is_object_or_interface_def is_enum_def
          strip_quotes_def example_self_def example_class_types_def)
  from enum_import_lists_recorded_names [where self = g and ann = "Name ''Color''"
      and ann' = "Name ''Color''" and self' = g and pft = Inr and n = 1
      and sch = example_schema and fs = Map.empty and ct = example_class_types
      and q = enum_query and em = "''enums''" and fd = None and bmi = None and g = g
      and qn = "''Q''" and m = "[]"] g e m
  have layout: "fst (generate g) =
         map ImportStmt (import_stmts g)
         @ [ImportStmt (ImportFrom [''Color'', ''Color''] ''enums'' 1)]
         @ map ClassStmt (class_defs g) @ map update_forward_refs_call (class_defs g)"
    by simp
  have qn: "op_name dfs_query = Some ''Q''"
    by (simp add: dfs_query_def)
  have en: "spec_used_enums Inr 4
       (initial_generator example_schema example_fields example_class_types dfs_query
          ''enums'' None None ''Q'') = [''Color'']"
    by (simp add: spec_used_enums_def dfs_traversal)
  from enum_import_lists_recorded_names [where self = g and ann = "Name ''Color''"
      and ann' = "Name ''Color''" and self' = g and pft = Inr and n = 4
      and sch = example_schema and fs = example_fields and ct = example_class_types
      and q = dfs_query and em = "''enums''" and fd = None and bmi = None and g = g
      and qn = "''Q''" and m = dfs_module] qn dfs_run en
  have run: "dfs_module =
     map ImportStmt
       [ImportFrom [''Optional'', ''Union''] ''typing'' 0,
        ImportFrom [''Field''] ''pydantic'' 0,
        ImportFrom [''BaseModel''] ''pydantic'' 0]
     @ [ImportStmt (ImportFrom [''Color''] ''enums'' 1)]
     @ map ClassStmt (module_classes dfs_module)
     @ map update_forward_refs_call (module_classes dfs_module)"
    by simp
  from layout g e p qn dfs_run en run
  show ?thesis by (auto simp: example_class_types_def)
qed

section \<open>The typename meta-field\<close>

text \<open>
  Below the root, \<^verbatim>\<open>_get_schema_field_definition\<close> answers \<^verbatim>\<open>__typename\<close> with the synthesized
  definition, whatever the registry holds.
\<close>

lemma nested_typename_is_synthesized:
  "get_schema_field_definition self type_name ''__typename'' =
     Inr generate_typename_field_definition"
  by (simp add: get_schema_field_definition_def)

text \<open>
  Claim C3 does not hold of the code at the root of the operation. For
  \<^verbatim>\<open>query Q { __typename }\<close>, \<^verbatim>\<open>_parse_query\<close> hands the name to
  \<^verbatim>\<open>_get_field_type_from_schema\<close>, which looks it up among the fields of the query type,
  does not find it and raises \<^verbatim>\<open>ParsingError\<close>: no string-typed field, and no module.
\<close>

theorem root_typename_raises:
  "run_generator Inr 3 example_schema example_fields example_class_types typename_query
     ''enums'' None None =
   Inl (ParsingError ''Definition for __typename not found in schema.'')"
  by (simp add: run_generator_def generator_defs example_schema_def typename_query_def)

section \<open>Fields without a schema definition\<close>










section \<open>Inline fragments at the root of the operation\<close>

text \<open>
  The synthesizer does not read the stored operation, and \<^verbatim>\<open>_parse_query\<close> reads only its
  kind and its selection set: two operations of the same kind and name whose root
  selection sets resolve alike give the same run.
\<close>

lemma procces_annotation_query:
  "procces_annotation (s\<lparr>query := q'\<rparr>) ann ns =
     (case procces_annotation s ann ns of
        Inl e \<Rightarrow> Inl e
      | Inr (a, s') \<Rightarrow> Inr (a, s'\<lparr>query := q'\<rparr>))"
  by (simp add: procces_annotation_def is_object_or_interface_def[abs_def] is_enum_def[abs_def]
        split: sum.splits)

lemma dependencies_loop_query:
  assumes "\<And>tn s. g tn (s\<lparr>query := q'\<rparr>) =
             (case g tn s of Inl e \<Rightarrow> Inl e | Inr (r, s') \<Rightarrow> Inr (r, s'\<lparr>query := q'\<rparr>))"
  shows "dependencies_loop g names (s\<lparr>query := q'\<rparr>) =
           (case dependencies_loop g names s of
              Inl e \<Rightarrow> Inl e
            | Inr (ds, s') \<Rightarrow> Inr (ds, s'\<lparr>query := q'\<rparr>))"
  by (induction names arbitrary: s) (auto simp: assms split: sum.splits prod.splits)

lemma field_dependencies_query:
  assumes "query_blind q' g"
  shows "field_dependencies g sel names (s\<lparr>query := q'\<rparr>) =
           (case field_dependencies g sel names s of
              Inl e \<Rightarrow> Inl e
            | Inr (ds, s') \<Rightarrow> Inr (ds, s'\<lparr>query := q'\<rparr>))"
proof (cases sel)
  case None
  then show ?thesis by (simp add: field_dependencies_def)
next
  case (Some ss)
  have "dependencies_loop (\<lambda>tn. g tn ss) names (s\<lparr>query := q'\<rparr>) =
           (case dependencies_loop (\<lambda>tn. g tn ss) names s of
              Inl e \<Rightarrow> Inl e
            | Inr (ds, s') \<Rightarrow> Inr (ds, s'\<lparr>query := q'\<rparr>))"
    by (rule dependencies_loop_query) (use assms in \<open>simp add: query_blind_def\<close>)
  with Some show ?thesis by (simp add: field_dependencies_def)
qed

lemma registry_lookup_query:
  "get_schema_field_definition (s\<lparr>query := q'\<rparr>) tn name = get_schema_field_definition s tn name"
  by (simp add: get_schema_field_definition_def)

lemma dependency_fields_loop_query:
  assumes "query_blind q' g"
  shows "dependency_fields_loop g tn l fs (s\<lparr>query := q'\<rparr>) =
           (case dependency_fields_loop g tn l fs s of
              Inl e \<Rightarrow> Inl e
            | Inr (b, ex, s') \<Rightarrow> Inr (b, ex, s'\<lparr>query := q'\<rparr>))"
proof (induction fs arbitrary: l s)
  case Nil
  show ?case by simp
next
  case (Cons f rest)
  obtain name sel where f: "f = (name, sel)" by (cases f)
  show ?case unfolding f
    by (simp add: registry_lookup_query procces_annotation_query
          field_dependencies_query[OF assms] Cons.IH
          split: sum.splits prod.splits field_def.splits)
qed

lemma generate_dependency_type_class_query:
  "query_blind q' (generate_dependency_type_class n)"
proof (induction n)
  case 0
  show ?case by (simp add: query_blind_def)
next
  case (Suc n)
  show ?case unfolding query_blind_def
  proof (intro allI)
    fix tn ss and s :: "'a QueryTypesGenerator"
    have upd: "\<And>u. s\<lparr>query := q', public_names := public_names s @ [query_name s @ tn],
                     used_fragments_names := u\<rparr> =
               (s\<lparr>public_names := public_names s @ [query_name s @ tn],
                  used_fragments_names := u\<rparr>)\<lparr>query := q'\<rparr>"
      by simp
    show "generate_dependency_type_class (Suc n) tn ss (s\<lparr>query := q'\<rparr>) =
        (case generate_dependency_type_class (Suc n) tn ss s of
           Inl e \<Rightarrow> Inl e
         | Inr (r, s') \<Rightarrow> Inr (r, s'\<lparr>query := q'\<rparr>))"
      by (simp add: upd dependency_fields_loop_query[OF Suc] del: 
            split: sum.splits prod.splits)
  qed
qed

lemma root_lookup_query:
  "operation q' = operation (query s) \<Longrightarrow>
   get_field_type_from_schema (s\<lparr>query := q'\<rparr>) name = get_field_type_from_schema s name"
  by (simp add: get_field_type_from_schema_def)

lemma query_fields_loop_query:
  assumes b: "query_blind q' g" and ok: "synth_ok g"
  shows "operation q' = operation (query s) \<Longrightarrow>
         query_fields_loop pft g l fs (s\<lparr>query := q'\<rparr>) =
           (case query_fields_loop pft g l fs s of
              Inl e \<Rightarrow> Inl e
            | Inr (b, ex, s') \<Rightarrow> Inr (b, ex, s'\<lparr>query := q'\<rparr>))"
proof (induction fs arbitrary: l s)
  case Nil
  show ?case by simp
next
  case (Cons f rest)
  obtain name sel where f: "f = (name, sel)" by (cases f)
  have keep: "operation q' = operation (query s2)"
    if "procces_annotation s ann ns = Inr (a, s1)"
      and "field_dependencies g sel ns s1 = Inr (ds, s2)" for ann ns a s1 ds s2
  proof -
    from step_invD(1)[OF procces_annotation_step[OF that(1)]]
         step_invD(1)[OF field_dependencies_step[OF ok that(2)]] Cons.prems
    show ?thesis by (simp add: same_inputs_def)
  qed
  show ?case unfolding f
    by (auto simp: root_lookup_query[OF Cons.prems] procces_annotation_query
          field_dependencies_query[OF b] Cons.IH[OF keep]
          split: sum.splits prod.splits)
qed

lemma parse_query_query:
  assumes op: "operation q' = operation (query s)"
    and res: "resolve_selection_set n (fragments_definitions s) (selection_set q') []
                (used_fragments_names s) =
              resolve_selection_set n (fragments_definitions s) (selection_set (query s)) []
                (used_fragments_names s)"
  shows "parse_query pft n (s\<lparr>query := q'\<rparr>) =
           (case parse_query pft n s of Inl e \<Rightarrow> Inl e | Inr g \<Rightarrow> Inr (g\<lparr>query := q'\<rparr>))"
proof -
  have upd: "s\<lparr>query := q', public_names := public_names s @ [query_name s],
                used_fragments_names := u\<rparr> =
             (s\<lparr>public_names := public_names s @ [query_name s],
                used_fragments_names := u\<rparr>)\<lparr>query := q'\<rparr>" for u
    by simp
  have loop: "query_fields_loop pft (generate_dependency_type_class n) (Suc 0) fs
                 ((s\<lparr>public_names := public_names s @ [query_name s],
                     used_fragments_names := u\<rparr>)\<lparr>query := q'\<rparr>) =
               (case query_fields_loop pft (generate_dependency_type_class n) (Suc 0) fs
                       (s\<lparr>public_names := public_names s @ [query_name s],
                          used_fragments_names := u\<rparr>) of
                  Inl e \<Rightarrow> Inl e
                | Inr (b, ex, s') \<Rightarrow> Inr (b, ex, s'\<lparr>query := q'\<rparr>))" for u fs
    by (rule query_fields_loop_query[OF generate_dependency_type_class_query
              generate_dependency_type_class_ok]) (simp add: op)
  show ?thesis
    by (simp add: parse_query_def res upd loop split: sum.splits prod.splits)
qed

lemma generate_query: "fst (generate (g\<lparr>query := q'\<rparr>)) = fst (generate g)"
  by (simp add: generate_def Let_def)

text \<open>
  Claim C10. \<^verbatim>\<open>_parse_query\<close> resolves the root selection set of the operation against the
  empty string as root type name. So an inline fragment that stands directly in the
  root selection set contributes nothing, whatever its type condition (a GraphQL name,
  which is never empty): the run is the run on the operation without the fragment. It
  gives the same exception or the same module, and the same generator but for the
  stored operation; in particular no field of the fragment becomes a field of the root
  type and no spread inside it is recorded as used.
\<close>

theorem root_inline_fragments_dropped:
  assumes "tc \<noteq> []"
  shows "run_generator pft n sch fs ct
           (q\<lparr>selection_set := pre @ InlineFragmentNode (Some tc) ss # post\<rparr>) em fd bmi =
         run_generator pft n sch fs ct (q\<lparr>selection_set := pre @ post\<rparr>) em fd bmi
       \<and> (case QueryTypesGenerator_init pft n sch fs ct
                 (q\<lparr>selection_set := pre @ InlineFragmentNode (Some tc) ss # post\<rparr>) em fd bmi of
            Inl e \<Rightarrow> Inl e
          | Inr g \<Rightarrow> Inr (g\<lparr>query := q\<rparr>)) =
         (case QueryTypesGenerator_init pft n sch fs ct (q\<lparr>selection_set := pre @ post\<rparr>)
                 em fd bmi of
            Inl e \<Rightarrow> Inl e
          | Inr g \<Rightarrow> Inr (g\<lparr>query := q\<rparr>))"
proof (cases "op_name q")
  case None
  then show ?thesis by (simp add: run_generator_def QueryTypesGenerator_init_def)
next
  case (Some qn)
  let ?q1 = "q\<lparr>selection_set := pre @ InlineFragmentNode (Some tc) ss # post\<rparr>"
  let ?q2 = "q\<lparr>selection_set := pre @ post\<rparr>"
  define s :: "'a QueryTypesGenerator" where
    "s = \<lparr>schema = sch, fields_of = fs, class_types = ct, query = ?q2,
          enums_module_name = em,
          fragments_definitions = (case fd of None \<Rightarrow> Map.empty | Some d \<Rightarrow> d),
          query_name = qn,
          import_stmts =
            [generate_import_from [OPTIONAL, UNION_name] ''typing'' 0,
             generate_import_from [''Field''] ''pydantic'' 0,
             (case bmi of
                None \<Rightarrow> generate_import_from [''BaseModel''] ''pydantic'' 0
              | Some i \<Rightarrow> i)],
          public_names = [], class_defs = [], used_enums = [],
          used_fragments_names = {}\<rparr>"
  have i2: "QueryTypesGenerator_init pft n sch fs ct ?q2 em fd bmi = parse_query pft n s"
    by (simp add: QueryTypesGenerator_init_def initial_generator_def Some s_def)
  have i1: "QueryTypesGenerator_init pft n sch fs ct ?q1 em fd bmi =
              parse_query pft n (s\<lparr>query := ?q1\<rparr>)"
    by (simp add: QueryTypesGenerator_init_def initial_generator_def Some s_def)
  from assms have skip: "resolve_selection_set n (fragments_definitions s)
      (pre @ InlineFragmentNode (Some tc) ss # post) [] (used_fragments_names s) =
    resolve_selection_set n (fragments_definitions s) (pre @ post) [] (used_fragments_names s)"
    by (rule resolve_inline_fragment_skip)
  have "parse_query pft n (s\<lparr>query := ?q1\<rparr>) =
          (case parse_query pft n s of Inl e \<Rightarrow> Inl e | Inr g \<Rightarrow> Inr (g\<lparr>query := ?q1\<rparr>))"
    by (rule parse_query_query) (use skip in \<open>simp_all add: s_def\<close>)
  with i1 i2 show ?thesis
    by (simp add: run_generator_def generate_query split: sum.splits)
qed

theorem root_inline_fragments_dropped_witness:
  "''Query'' \<noteq> []
 \<and> run_generator Inr 1 example_schema example_fields example_class_types
       (enum_query\<lparr>selection_set :=
          [FieldNode ''color'' None]
          @ InlineFragmentNode (Some ''Query'') [FieldNode ''user'' (Some [FieldNode ''id'' None])]
          # [FieldNode ''favourite'' None]\<rparr>) ''enums'' None None =
     run_generator Inr 1 example_schema example_fields example_class_types
       (enum_query\<lparr>selection_set := [FieldNode ''color'' None] @ [FieldNode ''favourite'' None]\<rparr>)
       ''enums'' None None
 \<and> run_generator Inr 1 example_schema example_fields example_class_types
       (enum_query\<lparr>selection_set := [FieldNode ''color'' None] @ [FieldNode ''favourite'' None]\<rparr>)
       ''enums'' None None =
     Inr [ImportStmt (ImportFrom [''Optional'', ''Union''] ''typing'' 0),
          ImportStmt (ImportFrom [''Field''] ''pydantic'' 0),
          ImportStmt (ImportFrom [''BaseModel''] ''pydantic'' 0),
          ImportStmt (ImportFrom [''Color'', ''Color''] ''enums'' 1),
          ClassStmt (ClassDef ''Q'' [''BaseModel'']
            [AnnAssign ''color'' (Name ''Color'') None 1,
             AnnAssign ''favourite'' (Subscript (Name ''Optional'') (Name ''Color'')) None 2]),
          MethodCallExpr ''Q'' ''update_forward_refs'']"
proof -
  have ne: "''Query'' \<noteq> []" by simp
  have run: "run_generator Inr 1 example_schema example_fields example_class_types
       (enum_query\<lparr>selection_set := [FieldNode ''color'' None] @ [FieldNode ''favourite'' None]\<rparr>)
       ''enums'' None None =
     Inr [ImportStmt (ImportFrom [''Optional'', ''Union''] ''typing'' 0),
          ImportStmt (ImportFrom [''Field''] ''pydantic'' 0),
          ImportStmt (ImportFrom [''BaseModel''] ''pydantic'' 0),
          ImportStmt (ImportFrom [''Color'', ''Color''] ''enums'' 1),
          ClassStmt (ClassDef ''Q'' [''BaseModel'']
            [AnnAssign ''color'' (Name ''Color'') None 1,
             AnnAssign ''favourite'' (Subscript (Name ''Optional'') (Name ''Color'')) None 2]),
          MethodCallExpr ''Q'' ''update_forward_refs'']"
    by (simp add: run_generator_def generate_def update_forward_refs_call_def generator_defs
          example_schema_def example_class_types_def enum_query_def)
  from root_inline_fragments_dropped [OF ne, where pft = Inr and n = 1 and sch = example_schema
      and fs = example_fields and ct = example_class_types and q = enum_query
      and pre = "[FieldNode ''color'' None]"
      and ss = "[FieldNode ''user'' (Some [FieldNode ''id'' None])]"
      and post = "[FieldNode ''favourite'' None]"
      and em = "''enums''" and fd = None and bmi = None] ne run
  show ?thesis by simp
qed

section \<open>The bound on the depth of the calls\<close>

text \<open>
  The bound is not felt unless it is hit: a run whose outcome is not \<^verbatim>\<open>RecursionError\<close>
  has the same outcome for every larger bound.
\<close>

lemma dependencies_loop_fuel:
  assumes "\<And>tn s. g tn s \<noteq> Inl RecursionError \<Longrightarrow> g' tn s = g tn s"
  shows "dependencies_loop g names s \<noteq> Inl RecursionError \<Longrightarrow>
         dependencies_loop g' names s = dependencies_loop g names s"
proof (induction names arbitrary: s)
  case Nil
  show ?case by simp
next
  case (Cons tn rest)
  from Cons.prems have a: "g tn s \<noteq> Inl RecursionError"
    by (auto split: sum.splits)
  show ?case
  proof (cases "g tn s")
    case (Inl e)
    with assms[OF a] show ?thesis by simp
  next
    case (Inr p)
    obtain r s1 where p: "p = (r, s1)" by (cases p)
    from Cons.prems Inr p have "dependencies_loop g rest s1 \<noteq> Inl RecursionError"
      by (auto split: sum.splits)
    from Cons.IH[OF this] assms[OF a] Inr p show ?thesis by simp
  qed
qed

lemma field_dependencies_fuel:
  assumes "\<And>tn ss s. g tn ss s \<noteq> Inl RecursionError \<Longrightarrow> g' tn ss s = g tn ss s"
    and "field_dependencies g sel names s \<noteq> Inl RecursionError"
  shows "field_dependencies g' sel names s = field_dependencies g sel names s"
proof (cases sel)
  case None
  then show ?thesis by (simp add: field_dependencies_def)
next
  case (Some ss)
  with assms(2) have "dependencies_loop (\<lambda>tn. g tn ss) names s \<noteq> Inl RecursionError"
    by (simp add: field_dependencies_def)
  from dependencies_loop_fuel[where g = "\<lambda>tn. g tn ss" and g' = "\<lambda>tn. g' tn ss", OF _ this]
    assms(1) Some
  show ?thesis by (simp add: field_dependencies_def)
qed

lemma dependency_fields_loop_fuel:
  assumes g: "\<And>tn ss s. g tn ss s \<noteq> Inl RecursionError \<Longrightarrow> g' tn ss s = g tn ss s"
  shows "dependency_fields_loop g tn l fs s \<noteq> Inl RecursionError \<Longrightarrow>
         dependency_fields_loop g' tn l fs s = dependency_fields_loop g tn l fs s"
proof (induction fs arbitrary: l s)
  case Nil
  show ?case by simp
next
  case (Cons f rest)
  obtain name sel where f: "f = (name, sel)" by (cases f)
  have dep: "field_dependencies g' sel ns s1 = field_dependencies g sel ns s1"
    if "field_dependencies g sel ns s1 \<noteq> Inl RecursionError" for ns s1
    using field_dependencies_fuel[OF g that] by simp
  show ?case
  proof (cases "get_schema_field_definition s tn name")
    case (Inl e)
    then show ?thesis by (simp add: f)
  next
    case (Inr d)
    show ?thesis
    proof (cases d)
      case (Assign t v)
      with Inr show ?thesis by (simp add: f)
    next
      case (AnnAssign target ann val ln)
      show ?thesis
      proof (cases "procces_annotation s ann (walk_annotation ann)")
        case (Inl e)
        with Inr AnnAssign show ?thesis by (simp add: f)
      next
        case pa: (Inr p)
        obtain ann' s1 where p: "p = (ann', s1)" by (cases p)
        from Cons.prems Inr AnnAssign pa p
        have nd: "field_dependencies g sel (walk_annotation ann) s1 \<noteq> Inl RecursionError"
          by (auto simp: f split: sum.splits)
        show ?thesis
        proof (cases "field_dependencies g sel (walk_annotation ann) s1")
          case (Inl e)
          with Inr AnnAssign pa p dep[OF nd] show ?thesis by (simp add: f)
        next
          case fd: (Inr p2)
          obtain deps s2 where p2: "p2 = (deps, s2)" by (cases p2)
          from Cons.prems Inr AnnAssign pa p fd p2
          have "dependency_fields_loop g tn (Suc l) rest s2 \<noteq> Inl RecursionError"
            by (auto simp: f split: sum.splits)
          from Cons.IH[OF this] Inr AnnAssign pa p fd p2 dep[OF nd]
          show ?thesis by (simp add: f)
        qed
      qed
    qed
  qed
qed

lemma query_fields_loop_fuel:
  assumes g: "\<And>tn ss s. g tn ss s \<noteq> Inl RecursionError \<Longrightarrow> g' tn ss s = g tn ss s"
  shows "query_fields_loop pft g l fs s \<noteq> Inl RecursionError \<Longrightarrow>
         query_fields_loop pft g' l fs s = query_fields_loop pft g l fs s"
proof (induction fs arbitrary: l s)
  case Nil
  show ?case by simp
next
  case (Cons f rest)
  obtain name sel where f: "f = (name, sel)" by (cases f)
  have dep: "field_dependencies g' sel ns s1 = field_dependencies g sel ns s1"
    if "field_dependencies g sel ns s1 \<noteq> Inl RecursionError" for ns s1
    using field_dependencies_fuel[OF g that] by simp
  show ?case
  proof (cases "get_field_type_from_schema s name")
    case (Inl e)
    then show ?thesis by (simp add: f)
  next
    case (Inr ft)
    show ?thesis
    proof (cases "pft ft")
      case (Inl e)
      with Inr show ?thesis by (simp add: f)
    next
      case pf: (Inr ann)
      show ?thesis
      proof (cases "procces_annotation s ann (walk_annotation ann)")
        case (Inl e)
        with Inr pf show ?thesis by (simp add: f)
      next
        case pa: (Inr p)
        obtain ann' s1 where p: "p = (ann', s1)" by (cases p)
        from Cons.prems Inr pf pa p
        have nd: "field_dependencies g sel (walk_annotation ann) s1 \<noteq> Inl RecursionError"
          by (auto simp: f split: sum.splits)
        show ?thesis
        proof (cases "field_dependencies g sel (walk_annotation ann) s1")
          case (Inl e)
          with Inr pf pa p dep[OF nd] show ?thesis by (simp add: f)
        next
          case fd: (Inr p2)
          obtain deps s2 where p2: "p2 = (deps, s2)" by (cases p2)
          from Cons.prems Inr pf pa p fd p2
          have "query_fields_loop pft g (Suc l) rest s2 \<noteq> Inl RecursionError"
            by (auto simp: f split: sum.splits)
          from Cons.IH[OF this] Inr pf pa p fd p2 dep[OF nd]
          show ?thesis by (simp add: f)
        qed
      qed
    qed
  qed
qed

lemma generate_dependency_type_class_fuel:
  "generate_dependency_type_class n tn ss s \<noteq> Inl RecursionError \<Longrightarrow>
   generate_dependency_type_class (Suc n) tn ss s = generate_dependency_type_class n tn ss s"
proof (induction n arbitrary: tn ss s)
  case 0
  then show ?case by (auto split: if_splits)
next
  case (Suc n)
  show ?case
  proof (cases "query_name s @ tn \<in> set (public_names s)")
    case True
    then show ?thesis by simp
  next
    case False
    from Suc.prems False
    have r: "resolve_selection_set n (fragments_definitions s) ss tn (used_fragments_names s)
               \<noteq> Inl RecursionError"
      by (auto split: sum.splits)
    note r' = resolve_fuel_Suc[OF r]
    show ?thesis
    proof (cases "resolve_selection_set n (fragments_definitions s) ss tn (used_fragments_names s)")
      case (Inl e)
      with False r' show ?thesis by simp
    next
      case (Inr p)
      obtain fs u where p: "p = (fs, u)" by (cases p)
      let ?s = "s\<lparr>public_names := public_names s @ [query_name s @ tn],
                   used_fragments_names := u\<rparr>"
      from Suc.prems False Inr p
      have "dependency_fields_loop (generate_dependency_type_class n) tn 1 fs ?s
              \<noteq> Inl RecursionError"
        by (auto split: sum.splits)
      from dependency_fields_loop_fuel[where g = "generate_dependency_type_class n"
             and g' = "generate_dependency_type_class (Suc n)", OF Suc.IH this]
      have "dependency_fields_loop (generate_dependency_type_class (Suc n)) tn 1 fs ?s =
            dependency_fields_loop (generate_dependency_type_class n) tn 1 fs ?s" .
      with False r' Inr p show ?thesis
        by (simp del: generate_dependency_type_class.simps
              add: generate_dependency_type_class.simps(2)[of "Suc n"]
                   generate_dependency_type_class.simps(2)[of n])
    qed
  qed
qed

lemma parse_query_fuel:
  assumes "parse_query pft n s \<noteq> Inl RecursionError"
  shows "parse_query pft (Suc n) s = parse_query pft n s"
proof -
  let ?r = "resolve_selection_set n (fragments_definitions s) (selection_set (query s)) []
              (used_fragments_names s)"
  from assms have r: "?r \<noteq> Inl RecursionError"
    by (auto simp: parse_query_def split: sum.splits)
  note r' = resolve_fuel_Suc[OF r]
  show ?thesis
  proof (cases ?r)
    case (Inl e)
    with r' show ?thesis by (simp add: parse_query_def)
  next
    case (Inr p)
    obtain fs u where p: "p = (fs, u)" by (cases p)
    let ?s = "s\<lparr>public_names := public_names s @ [query_name s], used_fragments_names := u\<rparr>"
    from assms Inr p
    have "query_fields_loop pft (generate_dependency_type_class n) 1 fs ?s \<noteq> Inl RecursionError"
      by (auto simp: parse_query_def split: sum.splits)
    from query_fields_loop_fuel[where g = "generate_dependency_type_class n"
           and g' = "generate_dependency_type_class (Suc n)",
           OF generate_dependency_type_class_fuel this]
    have "query_fields_loop pft (generate_dependency_type_class (Suc n)) 1 fs ?s =
          query_fields_loop pft (generate_dependency_type_class n) 1 fs ?s" .
    with r' Inr p show ?thesis by (simp add: parse_query_def)
  qed
qed

lemma run_generator_fuel:
  assumes "run_generator pft n sch fs ct q em fd bmi \<noteq> Inl RecursionError"
  shows "run_generator pft (n + k) sch fs ct q em fd bmi =
         run_generator pft n sch fs ct q em fd bmi"
proof (induction k)
  case 0
  show ?case by simp
next
  case (Suc k)
  from assms Suc have ne: "run_generator pft (n + k) sch fs ct q em fd bmi \<noteq> Inl RecursionError"
    by simp
  have "run_generator pft (Suc (n + k)) sch fs ct q em fd bmi =
        run_generator pft (n + k) sch fs ct q em fd bmi"
  proof (cases "op_name q")
    case None
    then show ?thesis by (simp add: run_generator_def QueryTypesGenerator_init_def)
  next
    case (Some qn)
    with ne show ?thesis
      by (auto simp: run_generator_def QueryTypesGenerator_init_def parse_query_fuel
            split: sum.splits)
  qed
  with Suc show ?case by simp
qed

end
